theory Spec2Isabelle
  imports
    Main
    "HOL-Library.Char_ord"
    "HOL-Library.List_Lexorder"
    "HOL-Library.Sublist"
    "HOL-Library.AList"
begin

text \<open>
  A shallow embedding of \<^verbatim>\<open>jh.py\<close> (GPUQueue): the directory-backed job queue
  \<^verbatim>\<open>JobQueue\<close>, its helpers \<^verbatim>\<open>copy\<close> and \<^verbatim>\<open>ignore_function\<close>, and the runner
  \<^verbatim>\<open>JobRunner\<close>. The program works on strings, on the file system and on one child
  process per job; the first sections model what it uses of Python's \<^verbatim>\<open>str\<close>,
  \<^verbatim>\<open>os\<close>, \<^verbatim>\<open>os.path\<close> and \<^verbatim>\<open>shutil\<close>, the later ones translate the source
  function by function.
\<close>

section \<open>Python strings\<close>

text \<open>
  A string is a list of characters and a character stands for a code point below 256.
  \<^verbatim>\<open>isspace\<close> is Python's white space in that range: U+0009 to U+000D, U+001C to
  U+0020, U+0085 and U+00A0. \<^verbatim>\<open>str.strip()\<close> removes it from both ends.
\<close>

definition LF :: char where
  "LF = CHR 0x0A"

definition CR :: char where
  "CR = CHR 0x0D"

definition isspace :: "char \<Rightarrow> bool" where
  "isspace c = (let n = (of_char c :: nat) in
     (9 \<le> n \<and> n \<le> 13) \<or> (28 \<le> n \<and> n \<le> 32) \<or> n = 133 \<or> n = 160)"

definition strip :: "string \<Rightarrow> string" where
  "strip s = rev (dropWhile isspace (rev (dropWhile isspace s)))"

text \<open>
  \<^verbatim>\<open>s.replace(old, new)\<close>: every occurrence of \<^verbatim>\<open>old\<close>, found from the left and
  without overlap, is replaced. (For an empty \<^verbatim>\<open>old\<close> Python puts \<^verbatim>\<open>new\<close> before
  every character and at the end.)
\<close>

function replace :: "string \<Rightarrow> string \<Rightarrow> string \<Rightarrow> string" where
  "replace old new [] = (if old = [] then new else [])"
| "replace old new (c # cs) =
     (if old = [] then new @ c # replace old new cs
      else if prefix old (c # cs) then new @ replace old new (drop (length old) (c # cs))
      else c # replace old new cs)"
  by pat_completeness auto
termination
  by (relation "measure (\<lambda>(old, new, s). length s)") (auto simp: not_less_eq_eq Suc_le_eq)

text \<open>\<^verbatim>\<open>s.split(sep)\<close> for a one-character separator, and \<^verbatim>\<open>sep.join(xs)\<close>.\<close>

fun split_on :: "char \<Rightarrow> string \<Rightarrow> string list" where
  "split_on sep [] = [[]]"
| "split_on sep (c # cs) =
     (if c = sep then [] # split_on sep cs
      else (case split_on sep cs of [] \<Rightarrow> [[c]] | x # xs \<Rightarrow> (c # x) # xs))"

fun join_str :: "string \<Rightarrow> string list \<Rightarrow> string" where
  "join_str sep [] = []"
| "join_str sep [x] = x"
| "join_str sep (x # y # ys) = x @ sep @ join_str sep (y # ys)"

text \<open>
  A file opened for reading in text mode translates a carriage return, with the
  line feed that may follow it, to one line feed (universal newlines); the flag says
  that the last character was a carriage return. \<^verbatim>\<open>f.readline()\<close> returns the text
  up to and with the next line feed, or what is left of the file (the empty string at
  its end), and the rest of the file.
\<close>

fun universal_newlines :: "bool \<Rightarrow> string \<Rightarrow> string" where
  "universal_newlines after_cr [] = []"
| "universal_newlines after_cr (c # cs) =
     (if c = CR then LF # universal_newlines True cs
      else if c = LF \<and> after_cr then universal_newlines False cs
      else c # universal_newlines False cs)"

definition readline :: "string \<Rightarrow> string \<times> string" where
  "readline f = (case dropWhile (\<lambda>c. c \<noteq> LF) f of
       [] \<Rightarrow> (f, [])
     | c # rest \<Rightarrow> (takeWhile (\<lambda>c. c \<noteq> LF) f @ [LF], rest))"

section \<open>Exceptions\<close>

text \<open>
  The exceptions the modelled calls raise. The first six are \<^verbatim>\<open>OSError\<close> and its
  subclasses (\<^verbatim>\<open>OtherOSError\<close> stands for an \<^verbatim>\<open>OSError\<close> of another errno, such as
  a loop of symbolic links; \<^verbatim>\<open>ShutilError\<close> for \<^verbatim>\<open>shutil.Error\<close>, whose errno is
  \<^verbatim>\<open>None\<close>). Only \<^verbatim>\<open>NotADirectoryError\<close> has errno \<^verbatim>\<open>ENOTDIR\<close>. All of them are
  subclasses of \<^verbatim>\<open>Exception\<close>. A function that can raise returns \<open>Inl\<close> of the
  exception; one that also changes the world returns the world as it is when the
  exception leaves the function.
\<close>

datatype error =
    FileNotFoundError | NotADirectoryError | IsADirectoryError | FileExistsError
  | OtherOSError | ShutilError | ValueError | UnicodeDecodeError | RecursionError

definition is_OSError :: "error \<Rightarrow> bool" where
  "is_OSError e = (e \<in> {FileNotFoundError, NotADirectoryError, IsADirectoryError,
     FileExistsError, OtherOSError, ShutilError})"

text \<open>\<^verbatim>\<open>str(e)\<close>, without the file name that Python appends to an \<^verbatim>\<open>OSError\<close>.\<close>

definition str_error :: "error \<Rightarrow> string" where
  "str_error e = (case e of
       FileNotFoundError \<Rightarrow> ''[Errno 2] No such file or directory''
     | NotADirectoryError \<Rightarrow> ''[Errno 20] Not a directory''
     | IsADirectoryError \<Rightarrow> ''[Errno 21] Is a directory''
     | FileExistsError \<Rightarrow> ''[Errno 17] File exists''
     | OtherOSError \<Rightarrow> ''[Errno 40] Too many levels of symbolic links''
     | ShutilError \<Rightarrow> ''[...]''
     | ValueError \<Rightarrow> ''invalid literal for int() with base 10''
     | UnicodeDecodeError \<Rightarrow> ''invalid start byte''
     | RecursionError \<Rightarrow> ''maximum recursion depth exceeded'')"

section \<open>Integers and their decimal text\<close>

text \<open>
  \<^verbatim>\<open>int(s)\<close> in base 10: white space around the literal is dropped, a sign may
  come first, and single underscores may stand between digits. Anything else raises
  \<^verbatim>\<open>ValueError\<close>. \<^verbatim>\<open>str(i)\<close> is the decimal text of an integer.
\<close>

definition isdigit :: "char \<Rightarrow> bool" where
  "isdigit c = (let n = (of_char c :: nat) in 48 \<le> n \<and> n \<le> 57)"

fun no_double_underscore :: "string \<Rightarrow> bool" where
  "no_double_underscore (a # b # cs) =
     ((a \<noteq> CHR ''_'' \<or> b \<noteq> CHR ''_'') \<and> no_double_underscore (b # cs))"
| "no_double_underscore cs = True"

definition int_literal :: "string \<Rightarrow> bool" where
  "int_literal b = (b \<noteq> [] \<and> isdigit (hd b) \<and> isdigit (last b) \<and>
     list_all (\<lambda>c. isdigit c \<or> c = CHR ''_'') b \<and> no_double_underscore b)"

definition digits_value :: "string \<Rightarrow> int" where
  "digits_value b = foldl (\<lambda>a c. 10 * a + (int (of_char c) - 48)) 0 (filter isdigit b)"

definition py_int :: "string \<Rightarrow> error + int" where
  "py_int s =
     (let t = strip s;
          neg = (t \<noteq> [] \<and> hd t = CHR ''-'');
          body = (if t \<noteq> [] \<and> (hd t = CHR ''-'' \<or> hd t = CHR ''+'') then tl t else t)
      in if int_literal body then Inr (if neg then - digits_value body else digits_value body)
         else Inl ValueError)"

fun str_nat :: "nat \<Rightarrow> string" where
  "str_nat n =
     (if n < 10 then [char_of (48 + n)] else str_nat (n div 10) @ [char_of (48 + n mod 10)])"

declare str_nat.simps [simp del]

definition str_int :: "int \<Rightarrow> string" where
  "str_int i = (if i < 0 then CHR ''-'' # str_nat (nat (- i)) else str_nat (nat i))"

section \<open>Path names\<close>

text \<open>
  \<^verbatim>\<open>os.path\<close> on POSIX: \<^verbatim>\<open>isabs\<close>, \<^verbatim>\<open>join\<close> of two parts, \<^verbatim>\<open>split\<close> (the source
  uses its second component, the text after the last slash) and \<^verbatim>\<open>normpath\<close>.
\<close>

definition isabs :: "string \<Rightarrow> bool" where
  "isabs p = prefix ''/'' p"

definition path_join :: "string \<Rightarrow> string \<Rightarrow> string" where
  "path_join a b =
     (if isabs b then b
      else if a = [] \<or> last a = CHR ''/'' then a @ b
      else a @ ''/'' @ b)"

definition rstrip_slash :: "string \<Rightarrow> string" where
  "rstrip_slash s = rev (dropWhile (\<lambda>c. c = CHR ''/'') (rev s))"

definition path_split :: "string \<Rightarrow> string \<times> string" where
  "path_split p =
     (let tail = rev (takeWhile (\<lambda>c. c \<noteq> CHR ''/'') (rev p));
          head = take (length p - length tail) p
      in (if head \<noteq> [] \<and> head \<noteq> replicate (length head) CHR ''/''
          then rstrip_slash head else head,
          tail))"

definition normpath :: "string \<Rightarrow> string" where
  "normpath path =
     (if path = [] then ''.''
      else
        let initial_slashes =
              (if prefix ''/'' path
               then (if prefix ''//'' path \<and> \<not> prefix ''///'' path then 2 else 1)
               else (0::nat));
            new_comps =
              foldl (\<lambda>nc comp.
                  if comp = [] \<or> comp = ''.'' then nc
                  else if comp \<noteq> ''..'' \<or> (initial_slashes = 0 \<and> nc = [])
                          \<or> (nc \<noteq> [] \<and> last nc = ''..'')
                    then nc @ [comp]
                  else if nc \<noteq> [] then butlast nc
                  else nc)
                [] (split_on CHR ''/'' path);
            p = replicate initial_slashes CHR ''/'' @ join_str ''/'' new_comps
        in if p = [] then ''.'' else p)"

section \<open>The file system\<close>

text \<open>
  The world outside the program: the file system, the working directory and what
  was written to standard output. The file system is a list of entries, each the
  absolute path of a file, directory or symbolic link, given by its components, with
  what is there; the root directory is the empty path and always exists. The working
  directory is taken to exist.

  Limits of the model: a symbolic link is followed when it is the last component of a
  path (up to 40 links in a row, as Linux does), a path that crosses a symbolic link
  before its last component is reported as crossing a non-directory; permissions and
  special files are left out.
\<close>

datatype node = File string | Dir | Symlink string

record world =
  files :: "(string list \<times> node) list"
  cwd :: "string list"
  stdout :: "string list"

definition getcwd :: "world \<Rightarrow> string" where
  "getcwd w = CHR ''/'' # join_str ''/'' (cwd w)"

definition abspath :: "world \<Rightarrow> string \<Rightarrow> string" where
  "abspath w path = normpath (if isabs path then path else path_join (getcwd w) path)"

definition print :: "string \<Rightarrow> world \<Rightarrow> world" where
  "print s w = w\<lparr>stdout := stdout w @ [s @ [LF]]\<rparr>"

text \<open>
  Path resolution. \<^verbatim>\<open>components\<close> are the names between the slashes of a path, with
  empty names and \<^verbatim>\<open>.\<close> dropped. \<^verbatim>\<open>walk es pre cs\<close> goes from the directory \<^verbatim>\<open>pre\<close>
  along \<^verbatim>\<open>cs\<close>: it returns the absolute path reached and what is there (\<open>None\<close>
  when only the last component is missing), \<^verbatim>\<open>FileNotFoundError\<close> when an earlier
  component is missing and \<^verbatim>\<open>NotADirectoryError\<close> when one is not a directory.
  \<^verbatim>\<open>lresolve\<close> resolves a path name without following a final symbolic link (as
  \<^verbatim>\<open>lstat\<close> does), \<^verbatim>\<open>resolve\<close> follows it (as \<^verbatim>\<open>stat\<close> and \<^verbatim>\<open>open\<close> do); a
  relative link is relative to the directory that holds it.
\<close>

definition components :: "string \<Rightarrow> string list" where
  "components p = filter (\<lambda>c. c \<noteq> [] \<and> c \<noteq> ''.'') (split_on CHR ''/'' p)"

fun walk :: "(string list \<times> node) list \<Rightarrow> string list \<Rightarrow> string list
    \<Rightarrow> error + (string list \<times> node option)" where
  "walk es pre [] = Inr (pre, Some Dir)"
| "walk es pre (c # cs) =
     (if c = ''..'' then walk es (butlast pre) cs
      else (case map_of es (pre @ [c]) of
          None \<Rightarrow> if cs = [] then Inr (pre @ [c], None) else Inl FileNotFoundError
        | Some Dir \<Rightarrow> walk es (pre @ [c]) cs
        | Some n \<Rightarrow> if cs = [] then Inr (pre @ [c], Some n) else Inl NotADirectoryError))"

definition lresolve :: "world \<Rightarrow> string list \<Rightarrow> string
    \<Rightarrow> error + (string list \<times> node option)" where
  "lresolve w start p =
     (if p = [] then Inl FileNotFoundError
      else walk (files w) (if isabs p then [] else start) (components p))"

fun follow :: "nat \<Rightarrow> world \<Rightarrow> string list \<Rightarrow> string
    \<Rightarrow> error + (string list \<times> node option)" where
  "follow n w start p =
     (case lresolve w start p of
        Inl e \<Rightarrow> Inl e
      | Inr (q, Some (Symlink t)) \<Rightarrow>
          (case n of 0 \<Rightarrow> Inl OtherOSError | Suc m \<Rightarrow> follow m w (butlast q) t)
      | Inr r \<Rightarrow> Inr r)"

declare follow.simps [simp del]

definition resolve :: "world \<Rightarrow> string \<Rightarrow> error + (string list \<times> node option)" where
  "resolve w p = follow 40 w (cwd w) p"

text \<open>\<^verbatim>\<open>os.path.exists\<close> and \<^verbatim>\<open>os.path.isdir\<close>: both follow symbolic links.\<close>

definition exists :: "world \<Rightarrow> string \<Rightarrow> bool" where
  "exists w p = (case resolve w p of Inr (q, Some n) \<Rightarrow> True | _ \<Rightarrow> False)"

definition isdir :: "world \<Rightarrow> string \<Rightarrow> bool" where
  "isdir w p = (case resolve w p of Inr (q, Some Dir) \<Rightarrow> True | _ \<Rightarrow> False)"

text \<open>
  Files. \<^verbatim>\<open>open(p, 'rb')\<close> gives the content of the file; \<^verbatim>\<open>open(p, 'r')\<close> gives it
  in text mode. \<^verbatim>\<open>open(p, 'w')\<close> creates or empties the file and returns the file
  object, which is the absolute path of the file; \<^verbatim>\<open>f.write(text)\<close> appends to it.
\<close>

definition trailing_slash :: "string \<Rightarrow> bool" where
  "trailing_slash p = (p \<noteq> [] \<and> last p = CHR ''/'')"

definition open_rb :: "world \<Rightarrow> string \<Rightarrow> error + string" where
  "open_rb w p =
     (case resolve w p of
        Inl e \<Rightarrow> Inl e
      | Inr (q, None) \<Rightarrow> Inl FileNotFoundError
      | Inr (q, Some (File c)) \<Rightarrow> if trailing_slash p then Inl NotADirectoryError else Inr c
      | Inr (q, Some Dir) \<Rightarrow> Inl IsADirectoryError
      | Inr (q, Some (Symlink t)) \<Rightarrow> Inl OtherOSError)"

definition open_r :: "world \<Rightarrow> string \<Rightarrow> error + string" where
  "open_r w p =
     (case open_rb w p of Inl e \<Rightarrow> Inl e | Inr c \<Rightarrow> Inr (universal_newlines False c))"

definition open_w :: "world \<Rightarrow> string \<Rightarrow> (error + string list) \<times> world" where
  "open_w w p =
     (case resolve w p of
        Inl e \<Rightarrow> (Inl e, w)
      | Inr (q, Some Dir) \<Rightarrow> (Inl IsADirectoryError, w)
      | Inr (q, Some (Symlink t)) \<Rightarrow> (Inl OtherOSError, w)
      | Inr (q, Some (File c)) \<Rightarrow>
          if trailing_slash p then (Inl NotADirectoryError, w)
          else (Inr q, w\<lparr>files := AList.update q (File []) (files w)\<rparr>)
      | Inr (q, None) \<Rightarrow>
          if trailing_slash p then (Inl IsADirectoryError, w)
          else (Inr q, w\<lparr>files := AList.update q (File []) (files w)\<rparr>))"

definition f_write :: "string list \<Rightarrow> string \<Rightarrow> world \<Rightarrow> world" where
  "f_write f text w =
     w\<lparr>files := AList.update f
        (File ((case map_of (files w) f of Some (File c) \<Rightarrow> c | _ \<Rightarrow> []) @ text))
        (files w)\<rparr>"

text \<open>
  Directories. \<^verbatim>\<open>os.listdir\<close> returns the names in a directory (in the order of the
  entries; Python promises no order). \<^verbatim>\<open>os.makedirs\<close> creates the directory and the
  missing ones above it and raises \<^verbatim>\<open>FileExistsError\<close> when the path exists.
  \<^verbatim>\<open>shutil.rmtree\<close> removes a directory with all below it and refuses a symbolic
  link. \<^verbatim>\<open>os.symlink(src, dst)\<close> creates the link \<^verbatim>\<open>dst\<close> with target \<^verbatim>\<open>src\<close> and
  raises \<^verbatim>\<open>FileExistsError\<close> when anything, a dangling link too, is at \<^verbatim>\<open>dst\<close>.
\<close>

definition valid_name :: "string \<Rightarrow> bool" where
  "valid_name c = (c \<noteq> [] \<and> c \<noteq> ''.'' \<and> c \<noteq> ''..'' \<and> CHR ''/'' \<notin> set c)"

definition children :: "(string list \<times> node) list \<Rightarrow> string list \<Rightarrow> string list" where
  "children es q =
     remdups (map last
       (filter (\<lambda>k. k \<noteq> [] \<and> butlast k = q \<and> valid_name (last k)) (map fst es)))"

definition listdir :: "world \<Rightarrow> string \<Rightarrow> error + string list" where
  "listdir w p =
     (case resolve w p of
        Inl e \<Rightarrow> Inl e
      | Inr (q, None) \<Rightarrow> Inl FileNotFoundError
      | Inr (q, Some Dir) \<Rightarrow> Inr (children (files w) q)
      | Inr (q, Some (File c)) \<Rightarrow> Inl NotADirectoryError
      | Inr (q, Some (Symlink t)) \<Rightarrow> Inl OtherOSError)"

fun mkdirs :: "(string list \<times> node) list \<Rightarrow> string list \<Rightarrow> string list
    \<Rightarrow> error + (string list \<times> node) list" where
  "mkdirs es pre [] = Inl FileExistsError"
| "mkdirs es pre (c # cs) =
     (if c = ''..'' then mkdirs es (butlast pre) cs
      else (case map_of es (pre @ [c]) of
          None \<Rightarrow>
            if cs = [] then Inr (AList.update (pre @ [c]) Dir es)
            else mkdirs (AList.update (pre @ [c]) Dir es) (pre @ [c]) cs
        | Some Dir \<Rightarrow> mkdirs es (pre @ [c]) cs
        | Some n \<Rightarrow> if cs = [] then Inl FileExistsError else Inl NotADirectoryError))"

definition makedirs :: "world \<Rightarrow> string \<Rightarrow> (error + unit) \<times> world" where
  "makedirs w p =
     (if p = [] then (Inl FileNotFoundError, w)
      else (case mkdirs (files w) (if isabs p then [] else cwd w) (components p) of
          Inl e \<Rightarrow> (Inl e, w)
        | Inr es \<Rightarrow> (Inr (), w\<lparr>files := es\<rparr>)))"

definition rmtree :: "world \<Rightarrow> string \<Rightarrow> (error + unit) \<times> world" where
  "rmtree w p =
     (case lresolve w (cwd w) p of
        Inl e \<Rightarrow> (Inl e, w)
      | Inr (q, None) \<Rightarrow> (Inl FileNotFoundError, w)
      | Inr (q, Some (Symlink t)) \<Rightarrow> (Inl OtherOSError, w)
      | Inr (q, Some (File c)) \<Rightarrow> (Inl NotADirectoryError, w)
      | Inr (q, Some Dir) \<Rightarrow>
          (Inr (), w\<lparr>files := filter (\<lambda>(k, n). \<not> prefix q k) (files w)\<rparr>))"

definition symlink :: "world \<Rightarrow> string \<Rightarrow> string \<Rightarrow> (error + unit) \<times> world" where
  "symlink w src dst =
     (case lresolve w (cwd w) dst of
        Inl e \<Rightarrow> (Inl e, w)
      | Inr (q, Some n) \<Rightarrow> (Inl FileExistsError, w)
      | Inr (q, None) \<Rightarrow> (Inr (), w\<lparr>files := AList.update q (Symlink src) (files w)\<rparr>))"

text \<open>
  \<^verbatim>\<open>shutil.copy(src, dst)\<close> copies one file (into \<^verbatim>\<open>dst\<close> when that is a
  directory). \<^verbatim>\<open>shutil.copytree(src, dst, ignore=...)\<close> lists \<^verbatim>\<open>src\<close>, creates
  \<^verbatim>\<open>dst\<close>, which must not exist, and copies every name that \<^verbatim>\<open>ignore\<close> does not
  return: a directory by a recursive call, anything else as a file. An \<^verbatim>\<open>OSError\<close>
  at one name is collected, the others are still copied, and \<^verbatim>\<open>shutil.Error\<close> is
  raised at the end; another exception leaves at once. The first argument bounds the
  depth of the recursion, as Python's recursion limit does: beyond it
  \<^verbatim>\<open>RecursionError\<close> is raised.
\<close>

definition samefile :: "world \<Rightarrow> string \<Rightarrow> string \<Rightarrow> bool" where
  "samefile w a b =
     (case (resolve w a, resolve w b) of
        (Inr (qa, Some na), Inr (qb, Some nb)) \<Rightarrow> qa = qb
      | _ \<Rightarrow> False)"

definition shutil_copy :: "world \<Rightarrow> string \<Rightarrow> string \<Rightarrow> (error + unit) \<times> world" where
  "shutil_copy w src dst =
     (let dst' = (if isdir w dst then path_join dst (snd (path_split src)) else dst)
      in if samefile w src dst' then (Inl ShutilError, w)
         else (case open_rb w src of
             Inl e \<Rightarrow> (Inl e, w)
           | Inr c \<Rightarrow>
               (case open_w w dst' of
                  (Inl e, w') \<Rightarrow> (Inl e, w')
                | (Inr f, w') \<Rightarrow> (Inr (), f_write f c w'))))"

fun copy_entries :: "(world \<Rightarrow> string \<Rightarrow> string \<Rightarrow> (error + unit) \<times> world)
    \<Rightarrow> string \<Rightarrow> string \<Rightarrow> string list \<Rightarrow> string list \<Rightarrow> bool \<Rightarrow> world
    \<Rightarrow> (error + unit) \<times> world" where
  "copy_entries rec src dst ignored_names [] errors w =
     (if errors then (Inl ShutilError, w) else (Inr (), w))"
| "copy_entries rec src dst ignored_names (name # names) errors w =
     (if name \<in> set ignored_names then copy_entries rec src dst ignored_names names errors w
      else
        (case (if isdir w (path_join src name)
               then rec w (path_join src name) (path_join dst name)
               else shutil_copy w (path_join src name) (path_join dst name)) of
           (Inr u, w') \<Rightarrow> copy_entries rec src dst ignored_names names errors w'
         | (Inl e, w') \<Rightarrow>
             if is_OSError e then copy_entries rec src dst ignored_names names True w'
             else (Inl e, w')))"

primrec copytree :: "nat \<Rightarrow> (string \<Rightarrow> string list \<Rightarrow> string list) \<Rightarrow> world \<Rightarrow> string \<Rightarrow> string
    \<Rightarrow> (error + unit) \<times> world" where
  "copytree 0 ignore w src dst = (Inl RecursionError, w)"
| "copytree (Suc depth) ignore w src dst =
     (case listdir w src of
        Inl e \<Rightarrow> (Inl e, w)
      | Inr names \<Rightarrow>
          (case makedirs w dst of
             (Inl e, w') \<Rightarrow> (Inl e, w')
           | (Inr u, w') \<Rightarrow>
               copy_entries (copytree depth ignore) src dst (ignore src names) names False w'))"

section \<open>Jobs\<close>

text \<open>
  Class \<^verbatim>\<open>Job\<close>. The fields are those the constructor saves. A job that the queue
  writes or reads has strings in all of them but \<^verbatim>\<open>gpus\<close>, which may be \<^verbatim>\<open>None\<close>.
  The constructor makes \<^verbatim>\<open>code_dir\<close>, \<^verbatim>\<open>data_dir\<close> and \<^verbatim>\<open>job_dir\<close> absolute;
  \<^verbatim>\<open>n_runs\<close> keeps its default 1.
\<close>

record job =
  code_dir :: string
  data_dir :: string
  cmd :: string
  gpus :: "int list option"
  job_dir :: string
  n_runs :: int
  time :: string
  status :: string
  name :: string

definition Job :: "world \<Rightarrow> string \<Rightarrow> string \<Rightarrow> string \<Rightarrow> string \<Rightarrow> int list option
    \<Rightarrow> string \<Rightarrow> string \<Rightarrow> string \<Rightarrow> job" where
  "Job w code_dir' data_dir' cmd' job_dir' gpus' time' status' name' =
     \<lparr>code_dir = abspath w code_dir', data_dir = abspath w data_dir', cmd = cmd',
      gpus = gpus', job_dir = abspath w job_dir', n_runs = 1, time = time',
      status = status', name = name'\<rparr>"

section \<open>The environment of a run\<close>

text \<open>
  What the program reads from its environment: the home directories that
  \<^verbatim>\<open>os.path.expanduser\<close> looks up (the empty name is the current user),
  \<^verbatim>\<open>str(time.time())\<close>, \<^verbatim>\<open>str(datetime.datetime.now())\<close>, \<^verbatim>\<open>os.environ\<close>, the
  recursion limit, and the behaviour of a child process. \<^verbatim>\<open>popen\<close> says what a
  shell command does when started in a directory with an environment: \<^verbatim>\<open>Popen\<close>
  raises, or the child writes lines to its standard output and exits with a code, or
  reading and writing its lines raises after some of them. What a child does to the
  file system is not modelled, and a child is taken to end.
\<close>

datatype process =
    Launch_failed error
  | Stream_failed "string list" error
  | Exited "string list" int

record env =
  user_home :: "string \<Rightarrow> string option"
  clock :: string
  now :: string
  environ :: "(string \<times> string) list"
  recursion_limit :: nat
  popen :: "world \<Rightarrow> string \<Rightarrow> string \<Rightarrow> (string \<times> string) list \<Rightarrow> process"

definition expanduser :: "env \<Rightarrow> string \<Rightarrow> string" where
  "expanduser ev path =
     (if \<not> prefix ''~'' path then path
      else
        let i = Suc (length (takeWhile (\<lambda>c. c \<noteq> CHR ''/'') (tl path)))
        in case user_home ev (take (i - 1) (tl path)) of
             None \<Rightarrow> path
           | Some userhome \<Rightarrow>
               (let r = rstrip_slash userhome @ drop i path in if r = [] then ''/'' else r))"

section \<open>The helpers \<^verbatim>\<open>ignore_function\<close> and \<^verbatim>\<open>copy\<close>\<close>

text \<open>
  \<^verbatim>\<open>ignore_function(ignore)\<close> returns the names of \<^verbatim>\<open>ignore\<close> that are among the
  listed names. \<^verbatim>\<open>copy(src, dest, ignore)\<close> calls \<^verbatim>\<open>shutil.copytree\<close>; on an
  \<^verbatim>\<open>OSError\<close> with errno \<^verbatim>\<open>ENOTDIR\<close> it calls \<^verbatim>\<open>shutil.copy\<close>, on any other
  \<^verbatim>\<open>OSError\<close> it prints a message and returns.
\<close>

definition ignore_function :: "string list \<Rightarrow> string \<Rightarrow> string list \<Rightarrow> string list" where
  "ignore_function ignore path names =
     filter (\<lambda>ignored_name. ignored_name \<in> set names) ignore"

definition copy :: "env \<Rightarrow> world \<Rightarrow> string \<Rightarrow> string \<Rightarrow> string list
    \<Rightarrow> (error + unit) \<times> world" where
  "copy ev w src dest ignore =
     (case copytree (recursion_limit ev) (ignore_function ignore) w src dest of
        (Inr u, w') \<Rightarrow> (Inr (), w')
      | (Inl e, w') \<Rightarrow>
          if is_OSError e
          then (if e = NotADirectoryError then shutil_copy w' src dest
                else (Inr (), print (''Directory not copied. Error: '' @ str_error e) w'))
          else (Inl e, w'))"

section \<open>The queue\<close>

text \<open>
  Class \<^verbatim>\<open>JobQueue\<close>: the lock, the index \<^verbatim>\<open>jobs\<close> (a dict, here an association
  list in insertion order) and the queue directory. A method body under
  \<^verbatim>\<open>with self._lock\<close> runs with the lock held and releases it at the end; a caller
  that finds the lock held waits, which the model returns as \<open>None\<close>. The methods
  whose Python names start with an underscore have the prefix \<^verbatim>\<open>priv_\<close> here.
\<close>

record job_queue =
  lock_held :: bool
  jobs :: "(string \<times> job) list"
  queue_dir :: string

definition JobQueue :: "string \<Rightarrow> job_queue" where
  "JobQueue queue_dir' = \<lparr>lock_held = False, jobs = [], queue_dir = queue_dir'\<rparr>"

definition with_lock :: "job_queue \<Rightarrow> (job_queue \<Rightarrow> 'a \<times> job_queue)
    \<Rightarrow> ('a \<times> job_queue) option" where
  "with_lock q body =
     (if lock_held q then None
      else (case body (q\<lparr>lock_held := True\<rparr>) of
              (r, q') \<Rightarrow> Some (r, q'\<lparr>lock_held := False\<rparr>)))"

text \<open>
  \<^verbatim>\<open>_read_status\<close> and \<^verbatim>\<open>_write_status\<close> (lines 112 to 115 and 127 to 130), and
  \<^verbatim>\<open>read_status\<close> and \<^verbatim>\<open>write_status\<close>, which call them under the lock (lines 117
  to 125). \<^verbatim>\<open>_read_status\<close> assigns \<^verbatim>\<open>job.status\<close>: the model returns the job with
  the new status. \<^verbatim>\<open>read_status\<close> returns that status.
\<close>

definition priv_read_status :: "world \<Rightarrow> job \<Rightarrow> error + job" where
  "priv_read_status w job =
     (let status_file = path_join (job_dir job) ''status.txt''
      in case open_r w status_file of
           Inl e \<Rightarrow> Inl e
         | Inr f \<Rightarrow> Inr (job\<lparr>status := strip (replace ''status:'' [] (fst (readline f)))\<rparr>))"

definition priv_write_status :: "world \<Rightarrow> job \<Rightarrow> (error + unit) \<times> world" where
  "priv_write_status w job =
     (let status_file = path_join (job_dir job) ''status.txt''
      in case open_w w status_file of
           (Inl e, w') \<Rightarrow> (Inl e, w')
         | (Inr f, w') \<Rightarrow> (Inr (), f_write f (''status: '' @ status job @ [LF]) w'))"

definition read_status :: "job_queue \<Rightarrow> world \<Rightarrow> job
    \<Rightarrow> ((error + string) \<times> job_queue) option" where
  "read_status q w job =
     with_lock q (\<lambda>q.
       (case priv_read_status w job of Inl e \<Rightarrow> Inl e | Inr job' \<Rightarrow> Inr (status job'), q))"

definition write_status :: "job_queue \<Rightarrow> world \<Rightarrow> job \<Rightarrow> string
    \<Rightarrow> (((error + unit) \<times> world) \<times> job_queue) option" where
  "write_status q w job status' =
     with_lock q (\<lambda>q. (priv_write_status w (job\<lparr>status := status'\<rparr>), q))"

text \<open>
  \<^verbatim>\<open>_read_job\<close> (lines 88 to 110) reads five lines of \<^verbatim>\<open>config.txt\<close> by position.
  \<^verbatim>\<open>parse_gpus\<close> is its treatment of the fifth line: \<^verbatim>\<open>none\<close> gives \<^verbatim>\<open>None\<close>,
  otherwise the text is split at commas and \<^verbatim>\<open>int\<close> is applied to every non-empty
  part.
\<close>

fun int_each :: "string list \<Rightarrow> error + int list" where
  "int_each [] = Inr []"
| "int_each (gpu # rest) =
     (case py_int gpu of
        Inl e \<Rightarrow> Inl e
      | Inr g \<Rightarrow> (case int_each rest of Inl e \<Rightarrow> Inl e | Inr gs \<Rightarrow> Inr (g # gs)))"

definition parse_gpus :: "string \<Rightarrow> error + int list option" where
  "parse_gpus line =
     (let gpus' = strip (replace ''gpus:'' [] line)
      in if gpus' = ''none'' then Inr None
         else (case int_each (filter (\<lambda>gpu. gpu \<noteq> []) (split_on CHR '','' gpus')) of
                 Inl e \<Rightarrow> Inl e
               | Inr gs \<Rightarrow> Inr (Some gs)))"

definition priv_read_job :: "world \<Rightarrow> string \<Rightarrow> error + job" where
  "priv_read_job w job_dir' =
     (let config_file = path_join job_dir' ''config.txt''
      in case open_r w config_file of
           Inl e \<Rightarrow> Inl e
         | Inr f \<Rightarrow>
             (let (l1, f1) = readline f;
                  (l2, f2) = readline f1;
                  (l3, f3) = readline f2;
                  (l4, f4) = readline f3;
                  (l5, f5) = readline f4
              in case parse_gpus l5 of
                   Inl e \<Rightarrow> Inl e
                 | Inr gpus' \<Rightarrow>
                     priv_read_status w
                       \<lparr>code_dir = strip (replace ''code_dir:'' [] l1),
                        data_dir = strip (replace ''data_dir:'' [] l2),
                        cmd = replace ''cmd:'' [] (strip l3),
                        gpus = gpus',
                        job_dir = job_dir',
                        n_runs = 1,
                        time = strip (replace ''time:'' [] l4),
                        status = [],
                        name = snd (path_split job_dir')\<rparr>))"

text \<open>
  \<^verbatim>\<open>update\<close> (lines 46 to 59): under the lock, the index is emptied and every
  directory of the queue directory is read; \<^verbatim>\<open>FileNotFoundError\<close> alone is caught,
  with a message. \<^verbatim>\<open>update_loop\<close> is the \<^verbatim>\<open>for\<close> loop.
\<close>

fun update_loop :: "string \<Rightarrow> string list \<Rightarrow> job_queue \<Rightarrow> world
    \<Rightarrow> ((error + unit) \<times> world) \<times> job_queue" where
  "update_loop qd [] q w = ((Inr (), w), q)"
| "update_loop qd (job_name # rest) q w =
     (let job_dir' = path_join qd job_name
      in if isdir w job_dir'
         then (case priv_read_job w job_dir' of
                 Inr curr_job \<Rightarrow>
                   update_loop qd rest (q\<lparr>jobs := AList.update job_name curr_job (jobs q)\<rparr>) w
               | Inl e \<Rightarrow>
                   if e = FileNotFoundError
                   then update_loop qd rest q
                          (print (''Failed to read job of name: '' @ job_name) w)
                   else ((Inl e, w), q))
         else update_loop qd rest q w)"

definition update :: "job_queue \<Rightarrow> world
    \<Rightarrow> (((error + unit) \<times> world) \<times> job_queue) option" where
  "update q w =
     with_lock q (\<lambda>q.
       (let q' = q\<lparr>jobs := []\<rparr>
        in case listdir w (queue_dir q') of
             Inl e \<Rightarrow> ((Inl e, w), q')
           | Inr names \<Rightarrow> update_loop (queue_dir q') names q' w))"

text \<open>
  \<^verbatim>\<open>_write_job\<close> (lines 61 to 86). \<^verbatim>\<open>prepare_dir\<close> is its first block, which removes
  a directory of the same path and creates the job directory; \<^verbatim>\<open>write_config\<close> is the
  block that writes \<^verbatim>\<open>config.txt\<close>.
\<close>

definition gpu_str_list :: "int list \<Rightarrow> string" where
  "gpu_str_list gs = concat (map (\<lambda>gpu. str_int gpu @ '','') gs)"

definition prepare_dir :: "world \<Rightarrow> job \<Rightarrow> (error + unit) \<times> world" where
  "prepare_dir w job =
     (case (if exists w (job_dir job) then rmtree w (job_dir job) else (Inr (), w)) of
        (Inl e, w') \<Rightarrow> (Inl e, w')
      | (Inr u, w') \<Rightarrow> makedirs w' (job_dir job))"

definition config_text :: "job \<Rightarrow> string" where
  "config_text job =
     ''code_dir: '' @ code_dir job @ [LF] @
     ''data_dir: '' @ data_dir job @ [LF] @
     ''cmd: '' @ cmd job @ [LF] @
     ''time: '' @ time job @ [LF] @
     ''gpus: '' @ (case gpus job of Some gs \<Rightarrow> gpu_str_list gs | None \<Rightarrow> ''none'') @ [LF]"

definition write_config :: "world \<Rightarrow> job \<Rightarrow> (error + unit) \<times> world" where
  "write_config w job =
     (let gpu_str = (case gpus job of Some gs \<Rightarrow> gpu_str_list gs | None \<Rightarrow> ''none'');
          config_file = path_join (job_dir job) ''config.txt''
      in case open_w w config_file of
           (Inl e, w') \<Rightarrow> (Inl e, w')
         | (Inr f, w') \<Rightarrow>
             (Inr (),
              f_write f (''gpus: '' @ gpu_str @ [LF])
               (f_write f (''time: '' @ time job @ [LF])
                 (f_write f (''cmd: '' @ cmd job @ [LF])
                   (f_write f (''data_dir: '' @ data_dir job @ [LF])
                     (f_write f (''code_dir: '' @ code_dir job @ [LF]) w'))))))"

definition priv_write_job :: "env \<Rightarrow> world \<Rightarrow> job \<Rightarrow> (error + unit) \<times> world" where
  "priv_write_job ev w job =
     (case prepare_dir w job of
        (Inl e, w1) \<Rightarrow> (Inl e, w1)
      | (Inr u, w1) \<Rightarrow>
          (let snapshot_dir = path_join (job_dir job) ''snapshot/'';
               data_dir_name = snd (path_split (data_dir job))
           in case copy ev w1 (code_dir job) snapshot_dir [data_dir_name] of
                (Inl e, w2) \<Rightarrow> (Inl e, w2)
              | (Inr u, w2) \<Rightarrow>
                  (case write_config w2 job of
                     (Inl e, w3) \<Rightarrow> (Inl e, w3)
                   | (Inr u, w3) \<Rightarrow> priv_write_status w3 job)))"

text \<open>
  \<^verbatim>\<open>add_job\<close> (lines 132 to 155) and \<^verbatim>\<open>load_job\<close> (lines 157 to 172).
\<close>

definition add_job :: "env \<Rightarrow> job_queue \<Rightarrow> world \<Rightarrow> string option \<Rightarrow> string \<Rightarrow> string
    \<Rightarrow> string \<Rightarrow> string option \<Rightarrow> int list option
    \<Rightarrow> (((error + job) \<times> world) \<times> job_queue) option" where
  "add_job ev q w job_name code_dir' data_dir' cmd' job_time gpus' =
     (let code_dir'' = abspath w (expanduser ev code_dir');
          data_dir'' = abspath w (expanduser ev data_dir');
          job_name' = (case job_name of None \<Rightarrow> ''job_'' @ clock ev | Some n \<Rightarrow> n);
          job_time' = (case job_time of None \<Rightarrow> now ev | Some t \<Rightarrow> t)
      in with_lock q (\<lambda>q.
           (let job_dir' = path_join (queue_dir q) job_name';
                job = Job w code_dir'' data_dir'' cmd' job_dir' gpus' job_time' ''ready''
                        job_name'
            in case priv_write_job ev w job of
                 (Inl e, w') \<Rightarrow> ((Inl e, w'), q)
               | (Inr u, w') \<Rightarrow> ((Inr job, w'), q))))"

definition load_job :: "job_queue \<Rightarrow> world \<Rightarrow> string
    \<Rightarrow> ((error + job) \<times> job_queue) option" where
  "load_job q w job_name =
     with_lock q (\<lambda>q.
       (let job_dir' = path_join (queue_dir q) job_name
        in if \<not> exists w job_dir' then (Inl ValueError, q)
           else (priv_read_job w job_dir', q)))"

text \<open>
  \<^verbatim>\<open>oldest\<close> (lines 181 to 187) takes no lock. It collects the jobs of the index
  whose status is \<^verbatim>\<open>'ready'\<close>, sorts them by \<^verbatim>\<open>job.time\<close> (\<^verbatim>\<open>sorted\<close> is stable, as
  \<^const>\<open>sort_key\<close> is; strings are compared by code points) and returns the first, or
  \<^verbatim>\<open>None\<close>.
\<close>

definition oldest :: "job_queue \<Rightarrow> job option" where
  "oldest q =
     (let sorted_jobs = sort_key time (filter (\<lambda>j. status j = ''ready'') (map snd (jobs q)))
      in if length sorted_jobs > 0 then Some (sorted_jobs ! 0) else None)"

section \<open>The runner\<close>

text \<open>
  \<^verbatim>\<open>JobRunner.run_job\<close> (lines 256 to 299) in its blocks. \<^verbatim>\<open>bind_data\<close> creates the
  symbolic link to the data directory (lines 262 to 268), outside the \<^verbatim>\<open>try\<close>.
  \<^verbatim>\<open>run_env\<close> is the environment of the child (lines 273 to 278). \<^verbatim>\<open>stream_output\<close>
  is the \<^verbatim>\<open>with\<close> block of the \<^verbatim>\<open>try\<close> (lines 281 to 290): the output file is
  opened, the child is started in the snapshot directory (\<^verbatim>\<open>Popen\<close> raises when that
  directory is missing) and its lines are written to standard output and to the file.
  \<^verbatim>\<open>crashed\<close> is the \<^verbatim>\<open>except Exception\<close> handler (lines 296 to 299). The exit code
  of the child is not used.
\<close>

definition bind_data :: "world \<Rightarrow> job \<Rightarrow> (error + unit) \<times> world" where
  "bind_data w job =
     (let data_dir_name = snd (path_split (data_dir job));
          snapshot_dir = path_join (job_dir job) ''snapshot/'';
          sl_path = path_join snapshot_dir data_dir_name
      in if \<not> exists w sl_path then symlink w (data_dir job) sl_path else (Inr (), w))"

definition run_env :: "env \<Rightarrow> job \<Rightarrow> (string \<times> string) list" where
  "run_env ev job =
     (case gpus job of
        Some gs \<Rightarrow> AList.update ''CUDA_VISIBLE_DEVICES'' (gpu_str_list gs) (environ ev)
      | None \<Rightarrow> environ ev)"

definition launch :: "env \<Rightarrow> world \<Rightarrow> string \<Rightarrow> string \<Rightarrow> (string \<times> string) list
    \<Rightarrow> process" where
  "launch ev w cmd_tokens cwd' run_env' =
     (case resolve w cwd' of
        Inl e \<Rightarrow> Launch_failed e
      | Inr (q, Some Dir) \<Rightarrow> popen ev w cmd_tokens cwd' run_env'
      | Inr (q, None) \<Rightarrow> Launch_failed FileNotFoundError
      | Inr (q, Some n) \<Rightarrow> Launch_failed NotADirectoryError)"

definition stream_output :: "env \<Rightarrow> world \<Rightarrow> job \<Rightarrow> (error + unit) \<times> world" where
  "stream_output ev w job =
     (let snapshot_dir = path_join (job_dir job) ''snapshot/'';
          cmd_tokens = cmd job;
          output_file = path_join (job_dir job) ''output.txt''
      in case open_w w output_file of
           (Inl e, w1) \<Rightarrow> (Inl e, w1)
         | (Inr f, w1) \<Rightarrow>
             (let w2 = print (''Run subprocess: '' @ cmd_tokens) w1
              in case launch ev w2 cmd_tokens snapshot_dir (run_env ev job) of
                   Launch_failed e \<Rightarrow> (Inl e, w2)
                 | Stream_failed lines e \<Rightarrow>
                     (Inl e, f_write f (concat lines) (w2\<lparr>stdout := stdout w2 @ lines\<rparr>))
                 | Exited lines code \<Rightarrow>
                     (Inr (), f_write f (concat lines) (w2\<lparr>stdout := stdout w2 @ lines\<rparr>))))"

definition crashed :: "job_queue \<Rightarrow> world \<Rightarrow> job \<Rightarrow> error
    \<Rightarrow> (((error + unit) \<times> world) \<times> job_queue) option" where
  "crashed q w job e =
     (case write_status q w job ''crashed'' of
        None \<Rightarrow> None
      | Some ((Inl e', w'), q') \<Rightarrow> Some ((Inl e', w'), q')
      | Some ((Inr u, w'), q') \<Rightarrow>
          Some ((Inr (), print ''Job crashed. Moving on...''
                           (print (''Exception: '' @ str_error e) w')), q'))"

definition run_job :: "env \<Rightarrow> job_queue \<Rightarrow> world \<Rightarrow> job
    \<Rightarrow> (((error + unit) \<times> world) \<times> job_queue) option" where
  "run_job ev q w job =
     (case bind_data w job of
        (Inl e, w1) \<Rightarrow> Some ((Inl e, w1), q)
      | (Inr u, w1) \<Rightarrow>
          (case stream_output ev w1 job of
             (Inl e, w2) \<Rightarrow> crashed q w2 job e
           | (Inr u, w2) \<Rightarrow>
               (case write_status q (print ''Job finished. Waiting for next job.'' w2) job
                       ''finished'' of
                  None \<Rightarrow> None
                | Some ((Inl e, w3), q') \<Rightarrow> crashed q' w3 job e
                | Some ((Inr u, w3), q') \<Rightarrow> Some ((Inr (), w3), q'))))"

section \<open>Notions used in the statements\<close>

text \<open>
  \<^verbatim>\<open>is_absent w p\<close>: nothing is at \<^verbatim>\<open>p\<close>, and the directory that would hold it
  exists. \<^verbatim>\<open>is_file w p\<close>: \<^verbatim>\<open>p\<close> names a regular file, possibly through symbolic
  links. \<^verbatim>\<open>writable_at es q\<close>: the entry \<^verbatim>\<open>q\<close> is missing or a regular file.
\<close>

definition is_absent :: "world \<Rightarrow> string \<Rightarrow> bool" where
  "is_absent w p = (case lresolve w (cwd w) p of Inr (q, None) \<Rightarrow> True | _ \<Rightarrow> False)"

definition is_file :: "world \<Rightarrow> string \<Rightarrow> bool" where
  "is_file w p =
     (case resolve w p of Inr (q, Some (File c)) \<Rightarrow> \<not> trailing_slash p | _ \<Rightarrow> False)"

definition writable_at :: "(string list \<times> node) list \<Rightarrow> string list \<Rightarrow> bool" where
  "writable_at es q =
     (case map_of es q of None \<Rightarrow> True | Some (File c) \<Rightarrow> True | Some n \<Rightarrow> False)"


definition scanned :: "world \<Rightarrow> string \<Rightarrow> string \<Rightarrow> job option" where
  "scanned w qd n =
     (if isdir w (path_join qd n)
      then (case priv_read_job w (path_join qd n) of Inr j \<Rightarrow> Some j | Inl e \<Rightarrow> None)
      else None)"

definition unreadable :: "world \<Rightarrow> string \<Rightarrow> string \<Rightarrow> bool" where
  "unreadable w qd n =
     (isdir w (path_join qd n) \<and> priv_read_job w (path_join qd n) = Inl FileNotFoundError)"

text \<open>
  Two client sequences: \<^verbatim>\<open>write_status(job, s)\<close> followed by \<^verbatim>\<open>read_status(job)\<close>,
  and \<^verbatim>\<open>_write_job(job)\<close> followed by \<^verbatim>\<open>_read_job(job.job_dir)\<close>.
\<close>

definition write_then_read_status :: "job_queue \<Rightarrow> world \<Rightarrow> job \<Rightarrow> string
    \<Rightarrow> (error + string) option" where
  "write_then_read_status q w job s =
     (case write_status q w job s of
        None \<Rightarrow> None
      | Some ((Inl e, w'), q') \<Rightarrow> Some (Inl e)
      | Some ((Inr u, w'), q') \<Rightarrow> map_option fst (read_status q' w' job))"

definition read_back :: "env \<Rightarrow> world \<Rightarrow> job \<Rightarrow> error + job" where
  "read_back ev w job =
     (case priv_write_job ev w job of
        (Inl e, w') \<Rightarrow> Inl e
      | (Inr u, w') \<Rightarrow> priv_read_job w' (job_dir job))"

text \<open>
  Notions for the file system around \<^verbatim>\<open>_write_job\<close>. \<^verbatim>\<open>tree_shaped es\<close>: every entry
  has a name and lies in a directory that is an entry too (or in the root), as in every
  file system. \<^verbatim>\<open>fresh es q\<close>: nothing lies below \<^verbatim>\<open>q\<close>. \<^verbatim>\<open>dirs_stay es es'\<close>: the
  directories of \<^verbatim>\<open>es\<close> are directories of \<^verbatim>\<open>es'\<close>. \<^verbatim>\<open>confined sq es es'\<close>: \<^verbatim>\<open>es'\<close>
  differs from \<^verbatim>\<open>es\<close> only at \<^verbatim>\<open>sq\<close> and below it, keeps the directories and has no
  new symbolic link; \<^verbatim>\<open>wconfined\<close> says so of two worlds, which also have the same
  working directory and the same output. \<^verbatim>\<open>snap_inv jd jq es\<close>: the path \<^verbatim>\<open>jd\<close> is
  the directory \<^verbatim>\<open>jq\<close>, and there is no symbolic link at \<^verbatim>\<open>snapshot\<close> in it or below.
  \<^verbatim>\<open>below jd p\<close>: the absolute path \<^verbatim>\<open>p\<close> is \<^verbatim>\<open>jd\<close> followed by \<^verbatim>\<open>snapshot\<close> and by
  names other than \<^verbatim>\<open>..\<close>. \<^verbatim>\<open>confines jd jq rec\<close>: a copy function changes the
  world only at \<^verbatim>\<open>snapshot\<close> and below when its destination is there.
\<close>

definition tree_shaped :: "(string list \<times> node) list \<Rightarrow> bool" where
  "tree_shaped es =
     list_all (\<lambda>(k, n). k \<noteq> [] \<and> (butlast k = [] \<or> map_of es (butlast k) = Some Dir)) es"

definition fresh :: "(string list \<times> node) list \<Rightarrow> string list \<Rightarrow> bool" where
  "fresh es q = (\<forall>k. strict_prefix q k \<longrightarrow> map_of es k = None)"

definition dirs_stay :: "(string list \<times> node) list \<Rightarrow> (string list \<times> node) list \<Rightarrow> bool" where
  "dirs_stay es es' = (\<forall>k. map_of es k = Some Dir \<longrightarrow> map_of es' k = Some Dir)"

definition confined :: "string list \<Rightarrow> (string list \<times> node) list \<Rightarrow> (string list \<times> node) list \<Rightarrow> bool" where
  "confined sq es es' =
     ((\<forall>k. \<not> prefix sq k \<longrightarrow> map_of es' k = map_of es k) \<and> dirs_stay es es' \<and>
      (\<forall>k t. map_of es' k = Some (Symlink t) \<longrightarrow> map_of es k = Some (Symlink t)))"

definition wconfined :: "string list \<Rightarrow> world \<Rightarrow> world \<Rightarrow> bool" where
  "wconfined sq w w' =
     (confined sq (files w) (files w') \<and> cwd w' = cwd w \<and> stdout w' = stdout w)"

definition snap_inv :: "string \<Rightarrow> string list \<Rightarrow> (string list \<times> node) list \<Rightarrow> bool" where
  "snap_inv jd jq es =
     (walk es [] (components jd) = Inr (jq, Some Dir) \<and>
      (\<forall>k t. prefix (jq @ [''snapshot'']) k \<longrightarrow> map_of es k \<noteq> Some (Symlink t)))"

definition below :: "string \<Rightarrow> string \<Rightarrow> bool" where
  "below jd p =
     (p \<noteq> [] \<and> isabs p \<and>
      (\<exists>ns. components p = components jd @ ''snapshot'' # ns \<and> ''..'' \<notin> set ns))"

definition confines :: "string \<Rightarrow> string list
    \<Rightarrow> (world \<Rightarrow> string \<Rightarrow> string \<Rightarrow> (error + unit) \<times> world) \<Rightarrow> bool" where
  "confines jd jq rec =
     (\<forall>w s d r w'. snap_inv jd jq (files w) \<longrightarrow> below jd d \<longrightarrow> rec w s d = (r, w')
        \<longrightarrow> wconfined (jq @ [''snapshot'']) w w')"

text \<open>
  The job that \<^verbatim>\<open>add_job\<close> builds from its arguments (lines 132 to 150): the paths
  made absolute, the name and the time taken from the clock when they are not given,
  and the status \<^verbatim>\<open>ready\<close>.
\<close>

definition new_job :: "env \<Rightarrow> job_queue \<Rightarrow> world \<Rightarrow> string option \<Rightarrow> string \<Rightarrow> string
    \<Rightarrow> string \<Rightarrow> string option \<Rightarrow> int list option \<Rightarrow> job" where
  "new_job ev q w job_name code_dir' data_dir' cmd' job_time gpus' =
     Job w (abspath w (expanduser ev code_dir')) (abspath w (expanduser ev data_dir')) cmd'
       (path_join (queue_dir q) (case job_name of None \<Rightarrow> ''job_'' @ clock ev | Some n \<Rightarrow> n))
       gpus' (case job_time of None \<Rightarrow> now ev | Some t \<Rightarrow> t) ''ready''
       (case job_name of None \<Rightarrow> ''job_'' @ clock ev | Some n \<Rightarrow> n)"

section \<open>Example inputs\<close>

text \<open>
  An environment whose child prints one line and exits with code 3, and one whose
  child's output cannot be decoded after a first line. A queue on the directory
  \<^verbatim>\<open>jobs/\<close>, as the program creates it.
\<close>

definition ex_env :: env where
  "ex_env = \<lparr>user_home = (\<lambda>u. if u = [] then Some ''/home/u'' else None),
     clock = ''1700000000.5'', now = ''2024-01-01 09:00:00.000000'',
     environ = [(''PATH'', ''/bin'')], recursion_limit = 1000,
     popen = (\<lambda>w c d e. Exited [''hi'' @ [LF]] 3)\<rparr>"


definition ex_queue :: job_queue where
  "ex_queue = JobQueue ''jobs/''"

text \<open>
  A world with a project directory and an empty queue directory, and a job for it with
  command \<^verbatim>\<open>echo hi\<close> and GPUs 0 and 1.
\<close>

definition ex_world :: world where
  "ex_world = \<lparr>files =
      [([''home''], Dir), ([''home'', ''u''], Dir),
       ([''home'', ''u'', ''proj''], Dir),
       ([''home'', ''u'', ''proj'', ''main.py''], File ''print(1)''),
       ([''home'', ''u'', ''proj'', ''data''], Dir),
       ([''home'', ''u'', ''proj'', ''data'', ''big.bin''], File ''0000''),
       ([''home'', ''u'', ''jobs''], Dir)],
     cwd = [''home'', ''u''], stdout = []\<rparr>"

definition ex_job :: job where
  "ex_job = Job ex_world ''/home/u/proj'' ''/home/u/proj/data'' ''echo hi'' ''jobs/A''
     (Some [0, 1]) ''2024-01-01 09:00:00.000000'' ''ready'' ''A''"

text \<open>
  A world in which job \<^verbatim>\<open>A\<close> is queued with its snapshot, and job \<^verbatim>\<open>B\<close> is queued
  without one: its code directory \<^verbatim>\<open>/nowhere\<close> did not exist when it was added, so
  \<^verbatim>\<open>copy\<close> printed its message and \<^verbatim>\<open>snapshot\<close> was never created. \<^verbatim>\<open>ready_job\<close> and
  \<^verbatim>\<open>queued_job\<close> are the two jobs as \<^verbatim>\<open>load_job\<close> returns them. \<^verbatim>\<open>orphan_job\<close> is
  job \<^verbatim>\<open>A\<close> with a data directory that does not exist.
\<close>

definition ready_world :: world where
  "ready_world = \<lparr>files =
      [([''home''], Dir), ([''home'', ''u''], Dir),
       ([''home'', ''u'', ''proj''], Dir),
       ([''home'', ''u'', ''proj'', ''data''], Dir),
       ([''home'', ''u'', ''jobs''], Dir),
       ([''home'', ''u'', ''jobs'', ''A''], Dir),
       ([''home'', ''u'', ''jobs'', ''A'', ''snapshot''], Dir),
       ([''home'', ''u'', ''jobs'', ''A'', ''snapshot'', ''main.py''], File ''print(1)''),
       ([''home'', ''u'', ''jobs'', ''A'', ''config.txt''],
          File (''code_dir: /home/u/proj'' @ [LF] @ ''data_dir: /home/u/proj/data'' @ [LF]
            @ ''cmd: echo hi'' @ [LF] @ ''time: 2024-01-01 09:00:00.000000'' @ [LF]
            @ ''gpus: 0,1,'' @ [LF])),
       ([''home'', ''u'', ''jobs'', ''A'', ''status.txt''], File (''status: ready'' @ [LF])),
       ([''home'', ''u'', ''jobs'', ''B''], Dir),
       ([''home'', ''u'', ''jobs'', ''B'', ''config.txt''],
          File (''code_dir: /nowhere'' @ [LF] @ ''data_dir: /nodata'' @ [LF]
            @ ''cmd: x'' @ [LF] @ ''time: 2024-01-02 09:00:00.000000'' @ [LF]
            @ ''gpus: none'' @ [LF])),
       ([''home'', ''u'', ''jobs'', ''B'', ''status.txt''], File (''status: ready'' @ [LF]))],
     cwd = [''home'', ''u''], stdout = []\<rparr>"

definition ready_job :: job where
  "ready_job = \<lparr>code_dir = ''/home/u/proj'', data_dir = ''/home/u/proj/data'',
     cmd = '' echo hi'', gpus = Some [0, 1], job_dir = ''jobs/A'', n_runs = 1,
     time = ''2024-01-01 09:00:00.000000'', status = ''ready'', name = ''A''\<rparr>"

definition queued_job :: job where
  "queued_job = \<lparr>code_dir = ''/nowhere'', data_dir = ''/nodata'', cmd = '' x'',
     gpus = None, job_dir = ''jobs/B'', n_runs = 1,
     time = ''2024-01-02 09:00:00.000000'', status = ''ready'', name = ''B''\<rparr>"

definition orphan_job :: job where
  "orphan_job = ready_job\<lparr>data_dir := ''/nodata''\<rparr>"

text \<open>
  \<^verbatim>\<open>ready_world\<close> after the data of job \<^verbatim>\<open>A\<close> is bound, and after its output file is
  opened.
\<close>

definition bound_world :: world where
  "bound_world = snd (bind_data ready_world ready_job)"

definition opened_world :: world where
  "opened_world = snd (open_w bound_world ''jobs/A/output.txt'')"





text \<open>
  The queue after a scan of \<^verbatim>\<open>ready_world\<close>, and the same queue while another
  thread runs the loop of \<^verbatim>\<open>update\<close>: the lock is held and the index has just been
  emptied.
\<close>

definition indexed_queue :: job_queue where
  "indexed_queue = ex_queue\<lparr>jobs := [(''A'', ready_job), (''B'', queued_job)]\<rparr>"

definition scanning_queue :: job_queue where
  "scanning_queue = indexed_queue\<lparr>lock_held := True, jobs := []\<rparr>"

text \<open>
  The job that \<^verbatim>\<open>add_job\<close> builds for the name \<^verbatim>\<open>C\<close> and the code directory
  \<^verbatim>\<open>/nowhere\<close>, which does not exist in \<^verbatim>\<open>ex_world\<close>, and \<^verbatim>\<open>ex_world\<close> with the job
  directory \<^verbatim>\<open>jobs/C\<close> created.
\<close>

definition nowhere_job :: job where
  "nowhere_job = new_job ex_env ex_queue ex_world (Some ''C'') ''/nowhere'' ''proj/data''
     ''echo hi'' None None"

definition prepared_world :: world where
  "prepared_world = ex_world\<lparr>files := files ex_world @ [([''home'', ''u'', ''jobs'', ''C''], Dir)]\<rparr>"

text \<open>
  \<^verbatim>\<open>ready_world\<close> with a directory in the place of the status record of job \<^verbatim>\<open>A\<close>.
\<close>

definition blocked_world :: world where
  "blocked_world = ready_world\<lparr>files :=
     AList.update [''home'', ''u'', ''jobs'', ''A'', ''status.txt''] Dir (files ready_world)\<rparr>"

section \<open>Lemmas\<close>

subsection \<open>Strings\<close>

lemma universal_newlines_id: "CR \<notin> set s \<Longrightarrow> universal_newlines False s = s"
  by (induction s) auto

lemma readline_first_line: "LF \<notin> set s \<Longrightarrow> readline (s @ LF # rest) = (s @ [LF], rest)"
proof -
  assume a: "LF \<notin> set s"
  then have d: "dropWhile (\<lambda>c. c \<noteq> LF) (s @ LF # rest) = LF # rest"
    by (induction s) auto
  from a have t: "takeWhile (\<lambda>c. c \<noteq> LF) (s @ LF # rest) = s"
    by (induction s) auto
  show ?thesis by (simp add: readline_def d t)
qed

lemma replace_prefix: "old \<noteq> [] \<Longrightarrow> replace old new (old @ s) = new @ replace old new s"
  by (cases old) simp_all

lemma replace_absent: "old \<noteq> [] \<Longrightarrow> \<not> sublist old s \<Longrightarrow> replace old new s = s"
proof (induction s)
  case Nil
  then show ?case by simp
next
  case (Cons c cs)
  from Cons.prems have np: "\<not> prefix old (c # cs)" and ns: "\<not> sublist old cs"
    by (auto simp: sublist_Cons_right)
  with Cons show ?case by simp
qed

lemma not_sublist_wrap:
  assumes "xs \<noteq> []" and "hd xs \<noteq> a" and "last xs \<noteq> b" and "\<not> sublist xs ys"
  shows "\<not> sublist xs (a # ys @ [b])"
proof
  assume "sublist xs (a # ys @ [b])"
  then have "prefix xs (a # ys @ [b]) \<or> sublist xs (ys @ [b])"
    by (simp add: sublist_Cons_right)
  moreover have "\<not> prefix xs (a # ys @ [b])"
    using assms(1,2) by (cases xs) auto
  ultimately have "sublist xs (ys @ [b])" by blast
  then have "sublist (rev xs) (b # rev ys)"
    by (metis rev.simps(2) rev_rev_ident sublist_rev rev_append rev_singleton_conv append_Cons append_Nil)
  then have "prefix (rev xs) (b # rev ys) \<or> sublist (rev xs) (rev ys)"
    by (simp add: sublist_Cons_right)
  moreover have "\<not> prefix (rev xs) (b # rev ys)"
    using assms(1,3) by (cases "rev xs") (auto simp: last_rev hd_rev[symmetric])
  ultimately have "sublist (rev xs) (rev ys)" by blast
  with assms(4) show False by (simp add: sublist_rev)
qed

lemma strip_wrapped:
  assumes "isspace a" and "isspace b" and "s = [] \<or> (\<not> isspace (hd s) \<and> \<not> isspace (last s))"
  shows "strip (a # s @ [b]) = s"
proof (cases s)
  case Nil
  with assms show ?thesis by (simp add: strip_def)
next
  case (Cons c cs)
  with assms have h: "\<not> isspace c" and l: "\<not> isspace (last s)" by auto
  from Cons h assms(1) have 1: "dropWhile isspace (a # s @ [b]) = s @ [b]" by simp
  from Cons have ne: "rev s \<noteq> []" by simp
  then obtain d ds where r: "rev s = d # ds" by (cases "rev s") auto
  then have "d = last s" using Cons by (metis hd_rev list.sel(1) ne rev_rev_ident)
  with l have "\<not> isspace d" by simp
  with r assms(2) have 2: "dropWhile isspace (rev (s @ [b])) = rev s" by simp
  show ?thesis by (simp only: strip_def 1 2 rev_rev_ident)
qed

subsection \<open>Resolution and file updates\<close>

lemma walk_node:
  "walk es pre cs = Inr (q, r) \<Longrightarrow> r \<noteq> Some Dir \<Longrightarrow> map_of es q = r"
  by (induction es pre cs rule: walk.induct)
     (auto split: if_splits option.splits node.splits)

lemma walk_update_file:
  assumes "writable_at es q" and "walk es pre cs = Inr (q', r)"
  shows "walk (AList.update q (File c') es) pre cs
         = Inr (q', if q' = q \<and> r \<noteq> Some Dir then Some (File c') else r)"
  using assms
  by (induction es pre cs rule: walk.induct)
     (auto simp: update_conv' writable_at_def split: if_splits option.splits node.splits)

lemma follow_node:
  "follow n w start p = Inr (q, r) \<Longrightarrow> r \<noteq> Some Dir \<Longrightarrow> map_of (files w) q = r"
proof (induction n arbitrary: start p)
  case 0
  then show ?case
    by (auto simp: follow.simps[of 0] lresolve_def dest: walk_node
             split: sum.splits option.splits node.splits if_splits)
next
  case (Suc n)
  then show ?case
    by (auto simp: follow.simps[of "Suc n"] lresolve_def dest: walk_node
             split: sum.splits option.splits node.splits if_splits)
qed


lemma follow_update_file:
  assumes "writable_at (files w) q" and "follow n w start p = Inr (q', r)"
  shows "follow n (w\<lparr>files := AList.update q (File c') (files w)\<rparr>) start p
         = Inr (q', if q' = q \<and> r \<noteq> Some Dir then Some (File c') else r)"
  using assms(2)
proof (induction n arbitrary: start p)
  case 0
  show ?case
  proof (cases "lresolve w start p")
    case (Inl e)
    with 0 show ?thesis by (simp add: follow.simps[of 0])
  next
    case (Inr qr)
    obtain q1 r1 where qr: "qr = (q1, r1)" by (cases qr)
    from Inr qr have wk: "walk (files w) (if isabs p then [] else start) (components p) = Inr (q1, r1)"
      and pne: "p \<noteq> []"
      by (auto simp: lresolve_def split: if_splits)
    from 0 Inr qr have nosym: "\<And>t. r1 \<noteq> Some (Symlink t)" and eq: "q' = q1" "r = r1"
      by (auto simp: follow.simps[of 0] split: option.splits node.splits)
    from walk_update_file[OF assms(1) wk, of c'] pne
    have "lresolve (w\<lparr>files := AList.update q (File c') (files w)\<rparr>) start p
          = Inr (q1, if q1 = q \<and> r1 \<noteq> Some Dir then Some (File c') else r1)"
      by (simp add: lresolve_def)
    with nosym eq show ?thesis
      by (auto simp: follow.simps[of 0] split: option.splits node.splits)
  qed
next
  case (Suc n)
  show ?case
  proof (cases "lresolve w start p")
    case (Inl e)
    with Suc.prems show ?thesis by (simp add: follow.simps[of "Suc n"])
  next
    case (Inr qr)
    obtain q1 r1 where qr: "qr = (q1, r1)" by (cases qr)
    from Inr qr have wk: "walk (files w) (if isabs p then [] else start) (components p) = Inr (q1, r1)"
      and pne: "p \<noteq> []"
      by (auto simp: lresolve_def split: if_splits)
    from walk_update_file[OF assms(1) wk, of c'] pne
    have lr: "lresolve (w\<lparr>files := AList.update q (File c') (files w)\<rparr>) start p
          = Inr (q1, if q1 = q \<and> r1 \<noteq> Some Dir then Some (File c') else r1)"
      by (simp add: lresolve_def)
    show ?thesis
    proof (cases "\<exists>t. r1 = Some (Symlink t)")
      case True
      then obtain t where t: "r1 = Some (Symlink t)" by blast
      with wk have "map_of (files w) q1 = Some (Symlink t)" by (auto dest: walk_node)
      with assms(1) have ne: "q1 \<noteq> q" by (auto simp: writable_at_def)
      from Suc.prems Inr qr t have "follow n w (butlast q1) t = Inr (q', r)"
        by (simp add: follow.simps[of "Suc n"])
      from Suc.IH[OF this] lr t ne show ?thesis
        by (simp add: follow.simps[of "Suc n"])
    next
      case False
      with Suc.prems Inr qr have eq: "q' = q1" "r = r1"
        by (auto simp: follow.simps[of "Suc n"] split: option.splits node.splits)
      with False lr show ?thesis
        by (auto simp: follow.simps[of "Suc n"] split: option.splits node.splits)
    qed
  qed
qed

lemma resolve_update_file:
  assumes "writable_at (files w) q" and "resolve w p = Inr (q', r)"
  shows "resolve (w\<lparr>files := AList.update q (File c') (files w)\<rparr>) p
         = Inr (q', if q' = q \<and> r \<noteq> Some Dir then Some (File c') else r)"
  using follow_update_file[OF assms(1), of 40 "cwd w" p q' r c'] assms(2)
  by (simp add: resolve_def)

lemma resolve_node: "resolve w p = Inr (q, r) \<Longrightarrow> r \<noteq> Some Dir \<Longrightarrow> map_of (files w) q = r"
  by (auto simp: resolve_def dest: follow_node)


subsection \<open>Writing and reading files\<close>
lemma follow_cong:
  "files w = files w' \<Longrightarrow> follow n w start p = follow n w' start p"
proof (induction n arbitrary: start p)
  case 0
  then show ?case
    by (simp add: follow.simps[of 0] lresolve_def
             split: sum.splits option.splits node.splits prod.splits)
next
  case (Suc n)
  then have "\<And>s t. follow n w s t = follow n w' s t" by blast
  with Suc.prems show ?case
    by (simp add: follow.simps[of "Suc n"] lresolve_def
             split: sum.splits option.splits node.splits prod.splits)
qed

lemma resolve_cong: "files w = files w' \<Longrightarrow> cwd w = cwd w' \<Longrightarrow> resolve w p = resolve w' p"
  by (simp add: resolve_def follow_cong[of w w'])

lemma resolve_print [simp]: "resolve (print s w) p = resolve w p"
  by (rule resolve_cong) (simp_all add: print_def)

lemma resolve_stdout [simp]: "resolve (w\<lparr>stdout := x\<rparr>) p = resolve w p"
  by (rule resolve_cong) simp_all

lemma is_file_iff:
  "is_file w p = ((\<exists>q c. resolve w p = Inr (q, Some (File c))) \<and> \<not> trailing_slash p)"
proof (cases "resolve w p")
  case (Inl e)
  then show ?thesis by (simp add: is_file_def)
next
  case (Inr qr)
  obtain q r where "qr = (q, r)" by (cases qr)
  with Inr show ?thesis
    by (cases r; simp add: is_file_def split: node.splits)
qed

lemma is_file_print [simp]: "is_file (print s w) p = is_file w p"
  by (simp add: is_file_def)

lemma is_file_stdout [simp]: "is_file (w\<lparr>stdout := x\<rparr>) p = is_file w p"
  by (simp add: is_file_def)

lemma open_w_Inr:
  assumes "open_w w p = (Inr f, w')"
  shows "\<not> trailing_slash p"
    and "resolve w p = Inr (f, None) \<or> (\<exists>c. resolve w p = Inr (f, Some (File c)))"
    and "w' = w\<lparr>files := AList.update f (File []) (files w)\<rparr>"
    and "writable_at (files w) f"
proof -
  from assms show 1: "\<not> trailing_slash p"
    and 2: "resolve w p = Inr (f, None) \<or> (\<exists>c. resolve w p = Inr (f, Some (File c)))"
    and "w' = w\<lparr>files := AList.update f (File []) (files w)\<rparr>"
    by (auto simp: open_w_def split: sum.splits option.splits node.splits if_splits prod.splits)
  from 2 show "writable_at (files w) f"
    by (auto simp: writable_at_def dest: resolve_node)
qed

lemma open_w_Inl: "open_w w p = (Inl e, w') \<Longrightarrow> w' = w"
  by (auto simp: open_w_def split: sum.splits option.splits node.splits if_splits prod.splits)

lemma open_w_resolve:
  assumes "open_w w p = (Inr f, w')"
  shows "resolve w' p = Inr (f, Some (File []))"
  using open_w_Inr[OF assms] resolve_update_file[of w f p f _ "[]"]
  by auto

lemma writable_after_update [simp]: "writable_at (AList.update f (File c) es) f"
  by (simp add: writable_at_def update_conv')

lemma f_write_resolve_same:
  assumes "resolve w p = Inr (f, Some (File c))"
  shows "resolve (f_write f t w) p = Inr (f, Some (File (c @ t)))"
proof -
  from assms have m: "map_of (files w) f = Some (File c)" by (auto dest: resolve_node)
  then have "writable_at (files w) f" by (simp add: writable_at_def)
  from resolve_update_file[OF this assms, of "c @ t"] m show ?thesis
    by (simp add: f_write_def)
qed




lemma open_w_writable:
  assumes "open_w w p = (Inr f, w')"
  shows "writable_at (files w') f"
  using open_w_Inr(3)[OF assms] by simp

lemma writable_print [simp]: "files (print s w) = files w"
  by (simp add: print_def)

lemma open_rb_file:
  "resolve w p = Inr (f, Some (File c)) \<Longrightarrow> \<not> trailing_slash p \<Longrightarrow> open_rb w p = Inr c"
  by (simp add: open_rb_def)

lemma open_w_is_file: "is_file w p \<Longrightarrow> \<exists>f w'. open_w w p = (Inr f, w')"
  by (auto simp: is_file_iff open_w_def)

lemma write_then_open_rb:
  assumes "open_w w p = (Inr f, w')"
  shows "open_rb (f_write f t w') p = Inr t"
proof -
  from open_w_resolve[OF assms] have "resolve (f_write f t w') p = Inr (f, Some (File ([] @ t)))"
    by (rule f_write_resolve_same)
  with open_w_Inr(1)[OF assms] show ?thesis by (simp add: open_rb_file)
qed

subsection \<open>The status record\<close>

lemma status_path_no_slash [simp]: "\<not> trailing_slash (path_join d ''status.txt'')"
  by (simp add: trailing_slash_def path_join_def isabs_def)

lemma status_line_parse:
  assumes "LF \<notin> set s" and "CR \<notin> set s"
    and "s = [] \<or> (\<not> isspace (hd s) \<and> \<not> isspace (last s))"
    and "\<not> sublist ''status:'' s"
  shows "strip (replace ''status:'' [] (fst (readline (universal_newlines False
           (''status: '' @ s @ [LF]))))) = s"
proof -
  have cr: "CR \<notin> set (''status: '' @ s @ [LF])"
    using assms(2) by (simp add: CR_def LF_def)
  have lf: "LF \<notin> set (''status: '' @ s)"
    using assms(1) by (simp add: LF_def)
  have 1: "universal_newlines False (''status: '' @ s @ [LF]) = ''status: '' @ s @ [LF]"
    using cr by (rule universal_newlines_id)
  have 2: "fst (readline ((''status: '' @ s) @ LF # [])) = (''status: '' @ s) @ [LF]"
    using readline_first_line[OF lf, of "[]"] by simp
  have ns: "\<not> sublist ''status:'' (CHR '' '' # s @ [LF])"
    by (rule not_sublist_wrap) (use assms(4) in \<open>simp_all add: LF_def\<close>)
  have ne: "''status:'' \<noteq> []" by simp
  have "replace ''status:'' [] (''status:'' @ (CHR '' '' # s @ [LF]))
        = [] @ replace ''status:'' [] (CHR '' '' # s @ [LF])"
    by (rule replace_prefix[OF ne])
  also have "\<dots> = CHR '' '' # s @ [LF]"
    using replace_absent[OF ne ns, of "[]"] by simp
  finally have 3: "replace ''status:'' [] (''status:'' @ (CHR '' '' # s @ [LF])) = CHR '' '' # s @ [LF]" .
  have 4: "strip (CHR '' '' # s @ [LF]) = s"
    by (rule strip_wrapped) (use assms(3) in \<open>simp_all add: isspace_def LF_def\<close>)
  from 1 2 3 4 show ?thesis by simp
qed

lemma write_status_then_read:
  assumes "priv_write_status w job = (Inr (), w')"
    and "job_dir job' = job_dir job"
    and "LF \<notin> set (status job)" and "CR \<notin> set (status job)"
    and "status job = [] \<or> (\<not> isspace (hd (status job)) \<and> \<not> isspace (last (status job)))"
    and "\<not> sublist ''status:'' (status job)"
  shows "priv_read_status w' job' = Inr (job'\<lparr>status := status job\<rparr>)"
proof -
  from assms(1) obtain f w1 where
    o: "open_w w (path_join (job_dir job) ''status.txt'') = (Inr f, w1)"
    and w': "w' = f_write f (''status: '' @ status job @ [LF]) w1"
    by (auto simp: priv_write_status_def Let_def split: prod.splits sum.splits)
  from write_then_open_rb[OF o] w'
  have "open_rb w' (path_join (job_dir job) ''status.txt'') = Inr (''status: '' @ status job @ [LF])"
    by simp
  then have "open_r w' (path_join (job_dir job') ''status.txt'')
      = Inr (universal_newlines False (''status: '' @ status job @ [LF]))"
    by (simp add: open_r_def assms(2))
  with status_line_parse[OF assms(3-6)] show ?thesis
    by (simp add: priv_read_status_def Let_def)
qed

subsection \<open>Symbolic links, the lock and the runner\<close>

lemma walk_update_symlink:
  assumes "map_of es q = None" and "walk es pre cs = Inr (q', r)"
  shows "walk (AList.update q (Symlink t) es) pre cs
         = Inr (q', if q' = q \<and> r = None then Some (Symlink t) else r)"
  using assms
  by (induction es pre cs rule: walk.induct)
     (auto simp: update_conv' split: if_splits option.splits node.splits)

lemma follow_update_symlink:
  assumes "map_of (files w) q = None" and "follow n w start p = Inr (q', r)"
    and "q' \<noteq> q \<or> r \<noteq> None"
  shows "follow n (w\<lparr>files := AList.update q (Symlink t) (files w)\<rparr>) start p = Inr (q', r)"
  using assms(2)
proof (induction n arbitrary: start p)
  case 0
  show ?case
  proof (cases "lresolve w start p")
    case (Inl e)
    with 0 show ?thesis by (simp add: follow.simps[of 0])
  next
    case (Inr qr)
    obtain q1 r1 where qr: "qr = (q1, r1)" by (cases qr)
    from Inr qr have wk: "walk (files w) (if isabs p then [] else start) (components p) = Inr (q1, r1)"
      and pne: "p \<noteq> []"
      by (auto simp: lresolve_def split: if_splits)
    from 0 Inr qr have nosym: "\<And>t. r1 \<noteq> Some (Symlink t)" and eq: "q' = q1" "r = r1"
      by (auto simp: follow.simps[of 0] split: option.splits node.splits)
    from walk_update_symlink[OF assms(1) wk, of t] pne
    have "lresolve (w\<lparr>files := AList.update q (Symlink t) (files w)\<rparr>) start p
          = Inr (q1, if q1 = q \<and> r1 = None then Some (Symlink t) else r1)"
      by (simp add: lresolve_def)
    with nosym eq assms(3) show ?thesis
      by (auto simp: follow.simps[of 0] split: option.splits node.splits)
  qed
next
  case (Suc n)
  show ?case
  proof (cases "lresolve w start p")
    case (Inl e)
    with Suc.prems show ?thesis by (simp add: follow.simps[of "Suc n"])
  next
    case (Inr qr)
    obtain q1 r1 where qr: "qr = (q1, r1)" by (cases qr)
    from Inr qr have wk: "walk (files w) (if isabs p then [] else start) (components p) = Inr (q1, r1)"
      and pne: "p \<noteq> []"
      by (auto simp: lresolve_def split: if_splits)
    from walk_update_symlink[OF assms(1) wk, of t] pne
    have lr: "lresolve (w\<lparr>files := AList.update q (Symlink t) (files w)\<rparr>) start p
          = Inr (q1, if q1 = q \<and> r1 = None then Some (Symlink t) else r1)"
      by (simp add: lresolve_def)
    show ?thesis
    proof (cases "\<exists>t'. r1 = Some (Symlink t')")
      case True
      then obtain t' where t': "r1 = Some (Symlink t')" by blast
      from Suc.prems Inr qr t' have "follow n w (butlast q1) t' = Inr (q', r)"
        by (simp add: follow.simps[of "Suc n"])
      from Suc.IH[OF this] lr t' show ?thesis
        by (simp add: follow.simps[of "Suc n"])
    next
      case False
      with Suc.prems Inr qr have eq: "q' = q1" "r = r1"
        by (auto simp: follow.simps[of "Suc n"] split: option.splits node.splits)
      with False lr assms(3) show ?thesis
        by (auto simp: follow.simps[of "Suc n"] split: option.splits node.splits)
    qed
  qed
qed

lemma is_file_symlink:
  assumes "symlink w src dst = (r, w')" and "is_file w p"
  shows "is_file w' p"
proof (cases r)
  case (Inl e)
  with assms show ?thesis
    by (auto simp: symlink_def split: sum.splits option.splits prod.splits)
next
  case (Inr u)
  with assms(1) obtain q where l: "lresolve w (cwd w) dst = Inr (q, None)"
    and w': "w' = w\<lparr>files := AList.update q (Symlink src) (files w)\<rparr>"
    by (auto simp: symlink_def split: sum.splits option.splits prod.splits)
  from l have m: "map_of (files w) q = None"
    by (auto simp: lresolve_def dest: walk_node split: if_splits)
  from assms(2) obtain f c where f: "resolve w p = Inr (f, Some (File c))" and t: "\<not> trailing_slash p"
    by (auto simp: is_file_iff)
  from follow_update_symlink[OF m f[unfolded resolve_def], of src] w' t show ?thesis
    by (simp add: is_file_iff resolve_def)
qed

lemma is_file_bind_data:
  assumes "bind_data w job = (r, w')" and "is_file w p"
  shows "is_file w' p"
  using assms by (auto simp: bind_data_def Let_def dest: is_file_symlink split: if_splits)




lemma unlock_id: "\<not> lock_held q \<Longrightarrow> q\<lparr>lock_held := False\<rparr> = q"
  by (cases q) simp

lemma write_status_free:
  "\<not> lock_held q \<Longrightarrow> write_status q w job s = Some (priv_write_status w (job\<lparr>status := s\<rparr>), q)"
  by (simp add: write_status_def with_lock_def unlock_id)

lemma read_status_free:
  "\<not> lock_held q \<Longrightarrow> read_status q w job =
     Some (case priv_read_status w job of Inl e \<Rightarrow> Inl e | Inr job' \<Rightarrow> Inr (status job'), q)"
  by (simp add: read_status_def with_lock_def unlock_id)

lemma finished_plain:
  "LF \<notin> set ''finished''" "CR \<notin> set ''finished''"
  "''finished'' = [] \<or> (\<not> isspace (hd ''finished'') \<and> \<not> isspace (last ''finished''))"
  "\<not> sublist ''status:'' ''finished''"
  by (simp_all add: LF_def CR_def isspace_def sublist_Cons_right)


lemma priv_read_status_print [simp]: "priv_read_status (print s w) job = priv_read_status w job"
  by (simp add: priv_read_status_def open_r_def open_rb_def)

subsection \<open>Path names\<close>

lemma split_on_not_Nil [simp]: "split_on sep s \<noteq> []"
  by (induction s) (auto split: list.splits)

lemma split_on_append: "split_on sep (a @ sep # b) = split_on sep a @ split_on sep b"
proof (induction a)
  case Nil
  then show ?case by simp
next
  case (Cons c cs)
  then show ?case by (cases "split_on sep cs") auto
qed

lemma split_on_no_sep: "sep \<notin> set b \<Longrightarrow> split_on sep b = [b]"
  by (induction b) auto

lemma components_join:
  assumes "valid_name b" and "a \<noteq> []"
  shows "components (path_join a b) = components a @ [b]"
proof -
  from assms(1) have nb: "CHR ''/'' \<notin> set b" and bne: "b \<noteq> []" and bd: "b \<noteq> ''.''"
    by (auto simp: valid_name_def)
  from nb bne have na: "\<not> isabs b" by (cases b) (auto simp: isabs_def)
  have sb: "split_on CHR ''/'' b = [b]" using nb by (rule split_on_no_sep)
  show ?thesis
  proof (cases "last a = CHR ''/''")
    case True
    with assms(2) obtain a' where a: "a = a' @ ''/''"
      by (metis append_butlast_last_id)
    have "split_on CHR ''/'' (a' @ CHR ''/'' # b) = split_on CHR ''/'' a' @ [b]"
      by (simp add: split_on_append sb)
    moreover have "split_on CHR ''/'' (a' @ CHR ''/'' # []) = split_on CHR ''/'' a' @ [[]]"
      by (simp add: split_on_append)
    ultimately show ?thesis
      using True assms(2) na a bne bd by (simp add: components_def path_join_def)
  next
    case False
    have "split_on CHR ''/'' (a @ CHR ''/'' # b) = split_on CHR ''/'' a @ [b]"
      by (simp add: split_on_append sb)
    with False assms(2) na bne bd show ?thesis
      by (simp add: components_def path_join_def)
  qed
qed

lemma isabs_join:
  assumes "valid_name b" and "a \<noteq> []"
  shows "isabs (path_join a b) = isabs a"
proof -
  from assms(1) have "\<not> isabs b" by (cases b) (auto simp: isabs_def valid_name_def)
  with assms(2) show ?thesis
    by (cases a) (auto simp: path_join_def isabs_def)
qed

lemma path_join_not_Nil: "valid_name b \<Longrightarrow> path_join a b \<noteq> []"
  by (auto simp: path_join_def valid_name_def)


lemma walk_append_dir:
  "walk es pre cs = Inr (q, Some Dir) \<Longrightarrow> walk es pre (cs @ ds) = walk es q ds"
  by (induction es pre cs rule: walk.induct)
     (auto split: if_splits option.splits node.splits)

lemma valid_config [simp]: "valid_name ''config.txt''" "valid_name ''status.txt''"
  by (simp_all add: valid_name_def)



subsection \<open>Reading a job\<close>








subsection \<open>The scan\<close>

lemma isdir_print [simp]: "isdir (print s w) p = isdir w p"
  by (simp add: isdir_def)

lemma open_r_print [simp]: "open_r (print s w) p = open_r w p"
  by (simp add: open_r_def open_rb_def)

lemma priv_read_job_print [simp]: "priv_read_job (print s w) d = priv_read_job w d"
  by (auto simp: priv_read_job_def Let_def split: sum.splits prod.splits)

lemma stdout_print [simp]: "stdout (print s w) = stdout w @ [s @ [LF]]"
  by (simp add: print_def)

lemma cwd_print [simp]: "cwd (print s w) = cwd w"
  by (simp add: print_def)

lemma scanned_print [simp]: "scanned (print s w) qd n = scanned w qd n"
  by (simp add: scanned_def)

lemma unreadable_print [simp]: "unreadable (print s w) qd n = unreadable w qd n"
  by (simp add: unreadable_def)



subsection \<open>What \<^verbatim>\<open>_write_job\<close> changes\<close>

lemma tree_shaped_iff:
  "tree_shaped es =
     (\<forall>k. map_of es k \<noteq> None \<longrightarrow> k \<noteq> [] \<and> (butlast k = [] \<or> map_of es (butlast k) = Some Dir))"
proof
  assume t: "tree_shaped es"
  show "\<forall>k. map_of es k \<noteq> None \<longrightarrow> k \<noteq> [] \<and> (butlast k = [] \<or> map_of es (butlast k) = Some Dir)"
  proof (intro allI impI)
    fix k assume "map_of es k \<noteq> None"
    then obtain n where "(k, n) \<in> set es" by (auto dest: map_of_SomeD)
    with t show "k \<noteq> [] \<and> (butlast k = [] \<or> map_of es (butlast k) = Some Dir)"
      by (auto simp: tree_shaped_def list_all_iff)
  qed
next
  assume a: "\<forall>k. map_of es k \<noteq> None \<longrightarrow> k \<noteq> [] \<and> (butlast k = [] \<or> map_of es (butlast k) = Some Dir)"
  show "tree_shaped es"
    unfolding tree_shaped_def list_all_iff
  proof (intro ballI)
    fix x assume x: "x \<in> set es"
    obtain k n where kn: "x = (k, n)" by (cases x)
    with x have "map_of es k \<noteq> None"
      by (metis map_of_eq_None_iff fst_conv image_eqI)
    with a kn show "case x of (k, n) \<Rightarrow> k \<noteq> [] \<and> (butlast k = [] \<or> map_of es (butlast k) = Some Dir)"
      by simp
  qed
qed

lemma tree_shaped_ancestor:
  assumes "tree_shaped es"
  shows "map_of es k \<noteq> None \<Longrightarrow> strict_prefix p k \<Longrightarrow> p \<noteq> [] \<Longrightarrow> map_of es p = Some Dir"
proof (induction k rule: rev_induct)
  case Nil
  then show ?case by simp
next
  case (snoc x k')
  from assms snoc.prems(1) have par: "k' = [] \<or> map_of es k' = Some Dir"
    by (auto simp: tree_shaped_iff)
  from snoc.prems(2) have "prefix p k'" by (metis prefix_snoc strict_prefix_def)
  then have "p = k' \<or> strict_prefix p k'" by (auto simp: strict_prefix_def)
  then show ?case
  proof
    assume "p = k'"
    with par snoc.prems(3) show ?thesis by simp
  next
    assume sp: "strict_prefix p k'"
    then have "k' \<noteq> []" by auto
    with par have "map_of es k' \<noteq> None" by auto
    from snoc.IH[OF this sp snoc.prems(3)] show ?thesis .
  qed
qed

lemma tree_shaped_fresh:
  assumes "tree_shaped es" and "q \<noteq> []" and "map_of es q \<noteq> Some Dir" and "strict_prefix q k"
  shows "map_of es k = None"
  using tree_shaped_ancestor[OF assms(1) _ assms(4) assms(2)] assms(3) by blast

lemma tree_shaped_update_dir:
  assumes "tree_shaped es" and "pre = [] \<or> map_of es pre = Some Dir"
  shows "tree_shaped (AList.update (pre @ [c]) Dir es)"
  using assms by (auto simp: tree_shaped_iff update_conv')

lemma map_of_filter_prefix:
  "map_of (filter (\<lambda>(k, n). \<not> prefix q k) es) k = (if prefix q k then None else map_of es k)"
  by (induction es) auto

lemma tree_shaped_rmtree:
  assumes "tree_shaped es"
  shows "tree_shaped (filter (\<lambda>(k, n). \<not> prefix q k) es)"
proof -
  have "\<And>k. \<not> prefix q k \<Longrightarrow> \<not> prefix q (butlast k)"
    by (metis prefix_order.order_trans prefixeq_butlast)
  with assms show ?thesis
    by (auto simp: tree_shaped_iff map_of_filter_prefix)
qed

lemma dirs_stay_refl [simp]: "dirs_stay es es"
  by (simp add: dirs_stay_def)

lemma dirs_stay_trans: "dirs_stay a b \<Longrightarrow> dirs_stay b c \<Longrightarrow> dirs_stay a c"
  by (simp add: dirs_stay_def)

lemma walk_dirs_stay:
  "dirs_stay es es' \<Longrightarrow> walk es pre cs = Inr (q, Some Dir) \<Longrightarrow> walk es' pre cs = Inr (q, Some Dir)"
  by (induction es pre cs rule: walk.induct)
     (auto simp: dirs_stay_def split: if_splits option.splits node.splits)

lemma tree_shaped_parent:
  assumes "tree_shaped es" and "pre = [] \<or> map_of es pre = Some Dir"
  shows "butlast pre = [] \<or> map_of es (butlast pre) = Some Dir"
  using assms by (auto simp: tree_shaped_iff)

lemma mkdirs_fresh:
  assumes "mkdirs es pre cs = Inr es'" and "tree_shaped es"
    and "pre = [] \<or> map_of es pre = Some Dir"
  shows "\<exists>q. walk es' pre cs = Inr (q, Some Dir) \<and> fresh es' q \<and> dirs_stay es es'"
  using assms
proof (induction es pre cs rule: mkdirs.induct)
  case (1 es pre)
  then show ?case by simp
next
  case (2 es pre c cs)
  show ?case
  proof (cases "c = ''..''")
    case True
    with "2.prems" have m: "mkdirs es (butlast pre) cs = Inr es'" by simp
    from "2.IH"(1)[OF True m "2.prems"(2) tree_shaped_parent[OF "2.prems"(2,3)]] True
    show ?thesis by simp
  next
    case False
    show ?thesis
    proof (cases "map_of es (pre @ [c])")
      case None
      let ?es1 = "AList.update (pre @ [c]) Dir es"
      have ts1: "tree_shaped ?es1" by (rule tree_shaped_update_dir[OF "2.prems"(2,3)])
      have ds1: "dirs_stay es ?es1" using None by (auto simp: dirs_stay_def update_conv')
      show ?thesis
      proof (cases "cs = []")
        case True
        with False None "2.prems" have e: "es' = ?es1" by simp
        have "fresh ?es1 (pre @ [c])"
          unfolding fresh_def
        proof (intro allI impI)
          fix k assume sp: "strict_prefix (pre @ [c]) k"
          have "map_of es k = None"
            by (rule tree_shaped_fresh[OF "2.prems"(2) _ _ sp]) (use None in simp_all)
          with sp show "map_of ?es1 k = None" by (auto simp: update_conv')
        qed
        with True False e ds1 show ?thesis by (simp add: update_conv')
      next
        case cs: False
        with False None "2.prems" have m: "mkdirs ?es1 (pre @ [c]) cs = Inr es'" by simp
        have "pre @ [c] = [] \<or> map_of ?es1 (pre @ [c]) = Some Dir" by (simp add: update_conv')
        from "2.IH"(2)[OF False None cs m ts1 this] obtain q where
          q: "walk es' (pre @ [c]) cs = Inr (q, Some Dir)" "fresh es' q" "dirs_stay ?es1 es'"
          by blast
        from q(3) have "map_of es' (pre @ [c]) = Some Dir"
          by (simp add: dirs_stay_def update_conv')
        with q False ds1 show ?thesis
          by (auto intro: dirs_stay_trans)
      qed
    next
      case (Some n)
      show ?thesis
      proof (cases n)
        case Dir
        with False Some "2.prems" have m: "mkdirs es (pre @ [c]) cs = Inr es'" by simp
        have "pre @ [c] = [] \<or> map_of es (pre @ [c]) = Some Dir" using Some Dir by simp
        from "2.IH"(3)[OF False Some Dir m "2.prems"(2) this] obtain q where
          q: "walk es' (pre @ [c]) cs = Inr (q, Some Dir)" "fresh es' q" "dirs_stay es es'"
          by blast
        from q(3) Some Dir have "map_of es' (pre @ [c]) = Some Dir" by (simp add: dirs_stay_def)
        with q False show ?thesis by auto
      next
        case (File x)
        with False Some "2.prems" show ?thesis by (simp split: if_splits)
      next
        case (Symlink x)
        with False Some "2.prems" show ?thesis by (simp split: if_splits)
      qed
    qed
  qed
qed

lemma rmtree_Inr:
  assumes "rmtree w p = (Inr (), w')"
  shows "\<exists>q. w' = w\<lparr>files := filter (\<lambda>(k, n). \<not> prefix q k) (files w)\<rparr>"
  using assms
  by (auto simp: rmtree_def split: sum.splits option.splits node.splits prod.splits)

lemma makedirs_Inr:
  assumes "makedirs w p = (Inr (), w')"
  shows "p \<noteq> []"
    and "\<exists>es'. mkdirs (files w) (if isabs p then [] else cwd w) (components p) = Inr es'
            \<and> w' = w\<lparr>files := es'\<rparr>"
  using assms by (auto simp: makedirs_def split: if_splits sum.splits)

lemma prepare_dir_fresh:
  assumes "prepare_dir w job = (Inr (), w1)" and "tree_shaped (files w)" and "isabs (job_dir job)"
  shows "\<exists>jq. walk (files w1) [] (components (job_dir job)) = Inr (jq, Some Dir) \<and>
           fresh (files w1) jq \<and> cwd w1 = cwd w \<and> stdout w1 = stdout w"
proof -
  from assms(1) obtain w0 where
    r: "(if exists w (job_dir job) then rmtree w (job_dir job) else (Inr (), w)) = (Inr (), w0)"
    and m: "makedirs w0 (job_dir job) = (Inr (), w1)"
    by (auto simp: prepare_dir_def split: prod.splits sum.splits)
  have "tree_shaped (files w0) \<and> cwd w0 = cwd w \<and> stdout w0 = stdout w"
  proof (cases "exists w (job_dir job)")
    case True
    with r obtain q where "w0 = w\<lparr>files := filter (\<lambda>(k, n). \<not> prefix q k) (files w)\<rparr>"
      by (auto dest: rmtree_Inr)
    with assms(2) show ?thesis by (simp add: tree_shaped_rmtree)
  next
    case False
    with r assms(2) show ?thesis by simp
  qed
  then have ts: "tree_shaped (files w0)" and c: "cwd w0 = cwd w" and s: "stdout w0 = stdout w"
    by simp_all
  from makedirs_Inr(2)[OF m] assms(3) obtain es' where
    mk: "mkdirs (files w0) [] (components (job_dir job)) = Inr es'" and w1: "w1 = w0\<lparr>files := es'\<rparr>"
    by auto
  from mkdirs_fresh[OF mk ts] obtain jq where
    "walk es' [] (components (job_dir job)) = Inr (jq, Some Dir)" "fresh es' jq"
    by auto
  with w1 c s show ?thesis by auto
qed

lemma confined_refl [simp]: "confined sq es es"
  by (simp add: confined_def)

lemma confined_trans:
  assumes "confined sq a b" and "confined sq b c"
  shows "confined sq a c"
proof -
  have 1: "\<forall>k. \<not> prefix sq k \<longrightarrow> map_of c k = map_of a k"
  proof (intro allI impI)
    fix k assume k: "\<not> prefix sq k"
    from assms(2) k have "map_of c k = map_of b k" unfolding confined_def by blast
    also from assms(1) k have "map_of b k = map_of a k" unfolding confined_def by blast
    finally show "map_of c k = map_of a k" .
  qed
  from assms have 2: "dirs_stay a c"
    unfolding confined_def by (blast intro: dirs_stay_trans)
  have 3: "\<forall>k t. map_of c k = Some (Symlink t) \<longrightarrow> map_of a k = Some (Symlink t)"
  proof (intro allI impI)
    fix k t assume "map_of c k = Some (Symlink t)"
    with assms(2) have "map_of b k = Some (Symlink t)" unfolding confined_def by blast
    with assms(1) show "map_of a k = Some (Symlink t)" unfolding confined_def by blast
  qed
  from 1 2 3 show ?thesis unfolding confined_def by blast
qed

lemma wconfined_refl [simp]: "wconfined sq w w"
  by (simp add: wconfined_def)

lemma wconfined_trans: "wconfined sq a b \<Longrightarrow> wconfined sq b c \<Longrightarrow> wconfined sq a c"
  unfolding wconfined_def by (metis confined_trans)

lemma snap_inv_confined:
  assumes "snap_inv jd jq es" and "confined sq es es'" and "sq = jq @ [''snapshot'']"
  shows "snap_inv jd jq es'"
proof -
  from assms(1) have w: "walk es [] (components jd) = Inr (jq, Some Dir)"
    unfolding snap_inv_def by blast
  from assms(2) have d: "dirs_stay es es'" unfolding confined_def by blast
  from assms(1) have n: "\<forall>k t. prefix sq k \<longrightarrow> map_of es k \<noteq> Some (Symlink t)"
    unfolding snap_inv_def assms(3) by blast
  from assms(2) have s: "\<forall>k t. map_of es' k = Some (Symlink t) \<longrightarrow> map_of es k = Some (Symlink t)"
    unfolding confined_def by blast
  from n s have "\<forall>k t. prefix sq k \<longrightarrow> map_of es' k \<noteq> Some (Symlink t)" by blast
  moreover note walk_dirs_stay
  ultimately show ?thesis unfolding snap_inv_def assms(3) using w d walk_dirs_stay by blast
qed

lemma walk_prefix:
  "d \<notin> set cs \<Longrightarrow> d = ''..'' \<Longrightarrow> walk es pre cs = Inr (q, r) \<Longrightarrow> prefix pre q"
proof (induction es pre cs rule: walk.induct)
  case (1 es pre)
  then show ?case by simp
next
  case (2 es pre c cs)
  from "2.prems" have c: "c \<noteq> ''..''" and cs: "d \<notin> set cs" by auto
  show ?case
  proof (cases "map_of es (pre @ [c])")
    case None
    with "2.prems"(3) c have "q = pre @ [c]" by (simp split: if_splits)
    then show ?thesis by simp
  next
    case (Some n)
    show ?thesis
    proof (cases n)
      case Dir
      with Some "2.prems"(3) c have "walk es (pre @ [c]) cs = Inr (q, r)" by simp
      from "2.IH"(2)[OF c Some Dir cs "2.prems"(2) this] show ?thesis
        by (rule append_prefixD)
    next
      case (File x)
      with Some "2.prems"(3) c have "q = pre @ [c]" by (simp split: if_splits)
      then show ?thesis by simp
    next
      case (Symlink x)
      with Some "2.prems"(3) c have "q = pre @ [c]" by (simp split: if_splits)
      then show ?thesis by simp
    qed
  qed
qed

lemma walk_prefix_Cons:
  assumes "c \<noteq> ''..''" and "''..'' \<notin> set cs" and "walk es pre (c # cs) = Inr (q, r)"
  shows "prefix (pre @ [c]) q"
proof (cases "map_of es (pre @ [c])")
  case None
  with assms(1,3) have "q = pre @ [c]" by (simp split: if_splits)
  then show ?thesis by simp
next
  case (Some n)
  show ?thesis
  proof (cases n)
    case Dir
    with Some assms(1,3) have "walk es (pre @ [c]) cs = Inr (q, r)" by simp
    from walk_prefix[OF assms(2) refl this] show ?thesis .
  next
    case (File x)
    with Some assms(1,3) have "q = pre @ [c]" by (simp split: if_splits)
    then show ?thesis by simp
  next
    case (Symlink x)
    with Some assms(1,3) have "q = pre @ [c]" by (simp split: if_splits)
    then show ?thesis by simp
  qed
qed

lemma lresolve_below:
  assumes "snap_inv jd jq (files w)" and "p \<noteq> []" and "isabs p"
    and "components p = components jd @ ''snapshot'' # ns"
  shows "lresolve w st p = walk (files w) jq (''snapshot'' # ns)"
  using assms walk_append_dir[of "files w" "[]" "components jd" jq "''snapshot'' # ns"]
  by (simp add: lresolve_def snap_inv_def)

lemma resolve_below:
  assumes "snap_inv jd jq (files w)" and "below jd p" and "resolve w p = Inr (q, r)"
  shows "prefix (jq @ [''snapshot'']) q"
proof -
  from assms(2) obtain ns where p: "p \<noteq> []" "isabs p"
    and c: "components p = components jd @ ''snapshot'' # ns" and d: "''..'' \<notin> set ns"
    by (auto simp: below_def)
  have l: "lresolve w (cwd w) p = walk (files w) jq (''snapshot'' # ns)"
    by (rule lresolve_below[OF assms(1) p c])
  show ?thesis
  proof (cases "walk (files w) jq (''snapshot'' # ns)")
    case (Inl e)
    with l assms(3) show ?thesis by (simp add: resolve_def follow.simps[of 40])
  next
    case (Inr qr)
    obtain q1 r1 where qr: "qr = (q1, r1)" by (cases qr)
    from Inr have wk: "walk (files w) jq (''snapshot'' # ns) = Inr (q1, r1)"
      unfolding qr .
    have sn: "''snapshot'' \<noteq> ''..''" by simp
    have pre: "prefix (jq @ [''snapshot'']) q1"
      by (rule walk_prefix_Cons[OF sn d wk])
    have ns: "\<And>t. r1 \<noteq> Some (Symlink t)"
    proof
      fix t assume "r1 = Some (Symlink t)"
      with walk_node[OF wk] have "map_of (files w) q1 = Some (Symlink t)" by simp
      with assms(1) pre show False by (auto simp: snap_inv_def)
    qed
    from assms(3) have "follow 40 w (cwd w) p = Inr (q, r)" by (simp add: resolve_def)
    then have "(case Inr (q1, r1) of
        Inl e \<Rightarrow> Inl e
      | Inr (q, Some (Symlink t)) \<Rightarrow>
          (case (40::nat) of 0 \<Rightarrow> Inl OtherOSError | Suc m \<Rightarrow> follow m w (butlast q) t)
      | Inr r \<Rightarrow> Inr r) = Inr (q, r)"
      unfolding follow.simps[of 40 w "cwd w" p] l wk .
    with ns have "q = q1"
      by (cases r1) (auto split: node.splits)
    with pre show ?thesis by simp
  qed
qed

lemma confined_update_file:
  assumes "prefix sq f" and "writable_at es f"
  shows "confined sq es (AList.update f (File c) es)"
  using assms
  by (auto simp: confined_def dirs_stay_def update_conv' writable_at_def
           split: option.splits node.splits)

lemma open_w_below:
  assumes "snap_inv jd jq (files w)" and "below jd p" and "open_w w p = (r, w')"
  shows "wconfined (jq @ [''snapshot'']) w w'"
proof (cases r)
  case (Inl e)
  with assms(3) have "w' = w" by (auto dest: open_w_Inl)
  then show ?thesis by simp
next
  case (Inr f)
  with assms(3) have o: "open_w w p = (Inr f, w')" by simp
  from open_w_Inr(2)[OF o] obtain r0 where "resolve w p = Inr (f, r0)" by blast
  from resolve_below[OF assms(1,2) this] have pf: "prefix (jq @ [''snapshot'']) f" .
  from open_w_Inr(3,4)[OF o] confined_update_file[OF pf] show ?thesis
    by (simp add: wconfined_def)
qed

lemma open_w_below_target:
  assumes "snap_inv jd jq (files w)" and "below jd p" and "open_w w p = (Inr f, w')"
  shows "prefix (jq @ [''snapshot'']) f"
proof -
  from open_w_Inr(2)[OF assms(3)] obtain r0 where "resolve w p = Inr (f, r0)" by blast
  from resolve_below[OF assms(1,2) this] show ?thesis .
qed

lemma f_write_confined:
  assumes "prefix sq f" and "writable_at (files w) f"
  shows "wconfined sq w (f_write f t w)"
  using confined_update_file[OF assms] by (simp add: wconfined_def f_write_def)

lemma components_slash: "components (p @ ''/'') = components p"
proof -
  have "split_on CHR ''/'' (p @ CHR ''/'' # []) = split_on CHR ''/'' p @ [[]]"
    by (simp add: split_on_append)
  then show ?thesis by (simp add: components_def)
qed

lemma path_join_slash: "b \<noteq> [] \<Longrightarrow> path_join a (b @ ''/'') = path_join a b @ ''/''"
  by (cases b) (auto simp: path_join_def isabs_def)

lemma isabs_slash: "p \<noteq> [] \<Longrightarrow> isabs (p @ ''/'') = isabs p"
  by (cases p) (auto simp: isabs_def)

lemma valid_snapshot: "valid_name ''snapshot''"
  by (simp add: valid_name_def)

lemma snapshot_slash: "''snapshot/'' = ''snapshot'' @ ''/''"
  by simp

lemma below_top:
  assumes "jd \<noteq> []" and "isabs jd"
  shows "below jd (path_join jd ''snapshot/'')"
proof -
  have e: "path_join jd ''snapshot/'' = path_join jd ''snapshot'' @ ''/''"
    unfolding snapshot_slash by (rule path_join_slash) simp
  have n: "path_join jd ''snapshot'' \<noteq> []"
    by (rule path_join_not_Nil[OF valid_snapshot])
  have c: "components (path_join jd ''snapshot/'') = components jd @ [''snapshot'']"
    unfolding e components_slash by (rule components_join[OF valid_snapshot assms(1)])
  have a: "isabs (path_join jd ''snapshot/'')"
    unfolding e isabs_slash[OF n] isabs_join[OF valid_snapshot assms(1)] by (rule assms(2))
  have ne: "path_join jd ''snapshot/'' \<noteq> []" unfolding e by simp
  from c a ne show ?thesis unfolding below_def by simp
qed

lemma below_join:
  assumes "below jd p" and "valid_name n"
  shows "below jd (path_join p n)"
proof -
  from assms(1) obtain ns where p: "p \<noteq> []" "isabs p"
    and c: "components p = components jd @ ''snapshot'' # ns" and d: "''..'' \<notin> set ns"
    unfolding below_def by blast
  from assms(2) have nd: "n \<noteq> ''..''" unfolding valid_name_def by blast
  have "components (path_join p n) = components jd @ ''snapshot'' # (ns @ [n])"
    unfolding components_join[OF assms(2) p(1)] c by simp
  moreover from d nd have "''..'' \<notin> set (ns @ [n])" by simp
  moreover have "isabs (path_join p n)" unfolding isabs_join[OF assms(2) p(1)] by (rule p(2))
  moreover have "path_join p n \<noteq> []" by (rule path_join_not_Nil[OF assms(2)])
  ultimately show ?thesis unfolding below_def by blast
qed

lemma basename_join:
  assumes "valid_name n"
  shows "snd (path_split (path_join a n)) = n"
proof -
  from assms have nb: "CHR ''/'' \<notin> set n" and ne: "n \<noteq> []"
    unfolding valid_name_def by blast+
  from nb ne have na: "\<not> isabs n" by (cases n) (auto simp: isabs_def)
  have t: "\<And>x. x = [] \<or> last x = CHR ''/'' \<Longrightarrow>
      takeWhile (\<lambda>c. c \<noteq> CHR ''/'') (rev (x @ n)) = rev n"
  proof -
    fix x :: string assume x: "x = [] \<or> last x = CHR ''/''"
    show "takeWhile (\<lambda>c. c \<noteq> CHR ''/'') (rev (x @ n)) = rev n"
    proof (cases "x = []")
      case True
      with nb show ?thesis by (auto simp: takeWhile_eq_all_conv)
    next
      case False
      with x have "hd (rev x) = CHR ''/''" by (simp add: hd_rev)
      moreover from False have "rev x \<noteq> []" by simp
      ultimately obtain y where "rev x = CHR ''/'' # y" by (cases "rev x") auto
      with nb show ?thesis by (auto simp: takeWhile_tail takeWhile_eq_all_conv)
    qed
  qed
  show ?thesis
  proof (cases "a = [] \<or> last a = CHR ''/''")
    case True
    with na have "path_join a n = a @ n" by (simp add: path_join_def)
    with t[OF True] show ?thesis by (simp add: path_split_def Let_def)
  next
    case False
    with na have "path_join a n = (a @ ''/'') @ n" by (simp add: path_join_def)
    moreover have "takeWhile (\<lambda>c. c \<noteq> CHR ''/'') (rev ((a @ ''/'') @ n)) = rev n"
      by (rule t) simp
    ultimately show ?thesis by (simp add: path_split_def Let_def)
  qed
qed

lemma children_valid: "n \<in> set (children es q) \<Longrightarrow> valid_name n"
  by (auto simp: children_def)

lemma listdir_valid: "listdir w p = Inr names \<Longrightarrow> n \<in> set names \<Longrightarrow> valid_name n"
  by (auto simp: listdir_def dest: children_valid
           split: sum.splits prod.splits option.splits node.splits)

lemma mkdirs_append_dir:
  "walk es pre cs = Inr (q, Some Dir) \<Longrightarrow> mkdirs es pre (cs @ ds) = mkdirs es q ds"
  by (induction es pre cs rule: walk.induct)
     (auto split: if_splits option.splits node.splits)

lemma confined_update_dir:
  assumes "prefix sq f" and "map_of es f = None"
  shows "confined sq es (AList.update f Dir es)"
  unfolding confined_def dirs_stay_def
proof (intro conjI allI impI)
  fix k assume "\<not> prefix sq k"
  with assms(1) have "k \<noteq> f" by blast
  then show "map_of (AList.update f Dir es) k = map_of es k" by (simp add: update_conv')
next
  fix k assume "map_of es k = Some Dir"
  then show "map_of (AList.update f Dir es) k = Some Dir" by (simp add: update_conv')
next
  fix k t assume "map_of (AList.update f Dir es) k = Some (Symlink t)"
  then show "map_of es k = Some (Symlink t)"
    by (cases "k = f") (simp_all add: update_conv')
qed

lemma mkdirs_confined:
  "mkdirs es pre cs = Inr es' \<Longrightarrow> d \<notin> set cs \<Longrightarrow> d = ''..'' \<Longrightarrow> prefix sq (pre @ [hd cs])
   \<Longrightarrow> confined sq es es'"
proof (induction es pre cs rule: mkdirs.induct)
  case (1 es pre)
  then show ?case by simp
next
  case (2 es pre c cs)
  from "2.prems" have c: "c \<noteq> ''..''" and cs: "d \<notin> set cs" by auto
  from "2.prems"(4) have p: "prefix sq (pre @ [c])" by simp
  then have p': "prefix sq ((pre @ [c]) @ [hd cs])" by (rule prefix_order.trans) simp
  show ?case
  proof (cases "map_of es (pre @ [c])")
    case None
    have u: "confined sq es (AList.update (pre @ [c]) Dir es)"
      by (rule confined_update_dir[OF p None])
    show ?thesis
    proof (cases "cs = []")
      case True
      with None "2.prems"(1) c have "es' = AList.update (pre @ [c]) Dir es" by simp
      with u show ?thesis by simp
    next
      case False
      with None "2.prems"(1) c
      have m: "mkdirs (AList.update (pre @ [c]) Dir es) (pre @ [c]) cs = Inr es'" by simp
      from "2.IH"(2)[OF c None False m cs "2.prems"(3) p']
      have "confined sq (AList.update (pre @ [c]) Dir es) es'" .
      with u show ?thesis by (rule confined_trans)
    qed
  next
    case (Some n)
    show ?thesis
    proof (cases n)
      case Dir
      with Some "2.prems"(1) c have m: "mkdirs es (pre @ [c]) cs = Inr es'" by simp
      from "2.IH"(3)[OF c Some Dir m cs "2.prems"(3) p'] show ?thesis .
    next
      case (File x)
      with Some "2.prems"(1) c show ?thesis by (simp split: if_splits)
    next
      case (Symlink x)
      with Some "2.prems"(1) c show ?thesis by (simp split: if_splits)
    qed
  qed
qed

lemma makedirs_below:
  assumes "snap_inv jd jq (files w)" and "below jd p" and "makedirs w p = (r, w')"
  shows "wconfined (jq @ [''snapshot'']) w w'"
proof -
  from assms(2) obtain ns where p: "p \<noteq> []" "isabs p"
    and c: "components p = components jd @ ''snapshot'' # ns" and d: "''..'' \<notin> set ns"
    unfolding below_def by blast
  from assms(1) have wk: "walk (files w) [] (components jd) = Inr (jq, Some Dir)"
    unfolding snap_inv_def by blast
  have m: "mkdirs (files w) [] (components p) = mkdirs (files w) jq (''snapshot'' # ns)"
    unfolding c by (rule mkdirs_append_dir[OF wk])
  show ?thesis
  proof (cases "mkdirs (files w) jq (''snapshot'' # ns)")
    case (Inl e)
    with assms(3) p m have "w' = w" by (simp add: makedirs_def)
    then show ?thesis by simp
  next
    case (Inr es')
    have dd: "''..'' \<notin> set (''snapshot'' # ns)" using d by simp
    have "confined (jq @ [''snapshot'']) (files w) es'"
      by (rule mkdirs_confined[OF Inr dd refl]) simp
    moreover from Inr assms(3) p m have "w' = w\<lparr>files := es'\<rparr>" by (simp add: makedirs_def)
    ultimately show ?thesis by (simp add: wconfined_def)
  qed
qed

lemma shutil_copy_below:
  assumes "snap_inv jd jq (files w)" and "below jd dst" and "valid_name (snd (path_split src))"
    and "shutil_copy w src dst = (r, w')"
  shows "wconfined (jq @ [''snapshot'']) w w'"
proof -
  define dst' where "dst' = (if isdir w dst then path_join dst (snd (path_split src)) else dst)"
  have b: "below jd dst'"
    unfolding dst'_def using assms(2) below_join[OF assms(2,3)] by simp
  show ?thesis
  proof (cases "samefile w src dst'")
    case True
    with assms(4) have "w' = w" by (simp add: shutil_copy_def Let_def dst'_def)
    then show ?thesis by simp
  next
    case False
    show ?thesis
    proof (cases "open_rb w src")
      case (Inl e)
      with False assms(4) have "w' = w" by (simp add: shutil_copy_def Let_def dst'_def)
      then show ?thesis by simp
    next
      case (Inr c)
      obtain r1 w1 where o: "open_w w dst' = (r1, w1)" by (cases "open_w w dst'")
      have c1: "wconfined (jq @ [''snapshot'']) w w1"
        by (rule open_w_below[OF assms(1) b o])
      show ?thesis
      proof (cases r1)
        case (Inl e)
        with False Inr o assms(4) have "w' = w1"
          by (simp add: shutil_copy_def Let_def dst'_def)
        with c1 show ?thesis by simp
      next
        case (Inr f)
        with o have o': "open_w w dst' = (Inr f, w1)" by simp
        from False \<open>open_rb w src = Inr c\<close> o' assms(4) have w': "w' = f_write f c w1"
          by (simp add: shutil_copy_def Let_def dst'_def)
        have "wconfined (jq @ [''snapshot'']) w1 (f_write f c w1)"
          by (rule f_write_confined[OF open_w_below_target[OF assms(1) b o'] open_w_writable[OF o']])
        with c1 show ?thesis unfolding w' by (rule wconfined_trans)
      qed
    qed
  qed
qed

lemma confinesD:
  "confines jd jq rec \<Longrightarrow> snap_inv jd jq (files w) \<Longrightarrow> below jd d \<Longrightarrow> rec w s d = (r, w')
   \<Longrightarrow> wconfined (jq @ [''snapshot'']) w w'"
  unfolding confines_def by blast

lemma snap_inv_wconfined:
  "snap_inv jd jq (files w) \<Longrightarrow> wconfined (jq @ [''snapshot'']) w w' \<Longrightarrow> snap_inv jd jq (files w')"
  unfolding wconfined_def by (blast intro: snap_inv_confined)

lemma copy_entries_below:
  assumes "confines jd jq rec" and "below jd dst"
  shows "snap_inv jd jq (files w) \<Longrightarrow> \<forall>n \<in> set names. valid_name n
    \<Longrightarrow> copy_entries rec src dst ign names errors w = (r, w')
    \<Longrightarrow> wconfined (jq @ [''snapshot'']) w w'"
proof (induction names arbitrary: errors w)
  case Nil
  then have "w' = w" by (simp split: if_splits)
  then show ?case by simp
next
  case (Cons name names)
  from Cons.prems(2) have vn: "valid_name name" and vs: "\<forall>n \<in> set names. valid_name n" by simp_all
  show ?case
  proof (cases "name \<in> set ign")
    case True
    with Cons.prems(3) have "copy_entries rec src dst ign names errors w = (r, w')" by simp
    from Cons.IH[OF Cons.prems(1) vs this] show ?thesis .
  next
    case False
    define step where "step = (if isdir w (path_join src name)
               then rec w (path_join src name) (path_join dst name)
               else shutil_copy w (path_join src name) (path_join dst name))"
    obtain r1 w1 where s: "step = (r1, w1)" by (cases step)
    have bd: "below jd (path_join dst name)" by (rule below_join[OF assms(2) vn])
    have c1: "wconfined (jq @ [''snapshot'']) w w1"
    proof (cases "isdir w (path_join src name)")
      case True
      with s have "rec w (path_join src name) (path_join dst name) = (r1, w1)"
        by (simp add: step_def)
      from confinesD[OF assms(1) Cons.prems(1) bd this] show ?thesis .
    next
      case False
      with s have sc: "shutil_copy w (path_join src name) (path_join dst name) = (r1, w1)"
        by (simp add: step_def)
      have "valid_name (snd (path_split (path_join src name)))"
        unfolding basename_join[OF vn] by (rule vn)
      from shutil_copy_below[OF Cons.prems(1) bd this sc] show ?thesis .
    qed
    have i1: "snap_inv jd jq (files w1)" by (rule snap_inv_wconfined[OF Cons.prems(1) c1])
    show ?thesis
    proof (cases r1)
      case (Inr u)
      with False s Cons.prems(3)
      have "copy_entries rec src dst ign names errors w1 = (r, w')"
        by (simp add: step_def)
      from Cons.IH[OF i1 vs this] c1 show ?thesis by (blast intro: wconfined_trans)
    next
      case (Inl e)
      show ?thesis
      proof (cases "is_OSError e")
        case True
        with Inl False s Cons.prems(3)
        have "copy_entries rec src dst ign names True w1 = (r, w')"
          by (simp add: step_def)
        from Cons.IH[OF i1 vs this] c1 show ?thesis by (blast intro: wconfined_trans)
      next
        case False
        with Inl \<open>name \<notin> set ign\<close> s Cons.prems(3) have "w' = w1"
          by (simp add: step_def)
        with c1 show ?thesis by simp
      qed
    qed
  qed
qed

lemma copytree_confines: "confines jd jq (\<lambda>w. copytree depth ign w)"
proof (induction depth)
  case 0
  show ?case unfolding confines_def by simp
next
  case (Suc depth)
  show ?case
    unfolding confines_def
  proof (intro allI impI)
    fix w s d r w'
    assume i: "snap_inv jd jq (files w)" and b: "below jd d"
      and c: "copytree (Suc depth) ign w s d = (r, w')"
    show "wconfined (jq @ [''snapshot'']) w w'"
    proof (cases "listdir w s")
      case (Inl e)
      with c have "w' = w" by simp
      then show ?thesis by simp
    next
      case (Inr names)
      obtain r1 w1 where m: "makedirs w d = (r1, w1)" by (cases "makedirs w d")
      have c1: "wconfined (jq @ [''snapshot'']) w w1" by (rule makedirs_below[OF i b m])
      have i1: "snap_inv jd jq (files w1)" by (rule snap_inv_wconfined[OF i c1])
      show ?thesis
      proof (cases r1)
        case (Inl e)
        with Inr m c have "w' = w1" by simp
        with c1 show ?thesis by simp
      next
        case (Inr u)
        with \<open>listdir w s = Inr names\<close> m c
        have ce: "copy_entries (copytree depth ign) s d (ign s names) names False w1 = (r, w')"
          by simp
        have v: "\<forall>n \<in> set names. valid_name n"
          using listdir_valid[OF \<open>listdir w s = Inr names\<close>] by blast
        have "confines jd jq (copytree depth ign)" using Suc by simp
        from copy_entries_below[OF this b i1 v ce] c1 show ?thesis
          by (blast intro: wconfined_trans)
      qed
    qed
  qed
qed

lemma copytree_below:
  assumes "snap_inv jd jq (files w)" and "below jd d" and "copytree depth ign w s d = (r, w')"
  shows "wconfined (jq @ [''snapshot'']) w w'"
  using copytree_confines[of jd jq depth ign] assms unfolding confines_def by blast

lemma isabs_normpath: "isabs x \<Longrightarrow> isabs (normpath x)"
  by (cases x) (auto simp: normpath_def Let_def isabs_def numeral_2_eq_2)

lemma isabs_getcwd_join: "isabs (path_join (getcwd w) p)"
  by (auto simp: path_join_def getcwd_def isabs_def)

lemma isabs_abspath: "isabs (abspath w p)"
  unfolding abspath_def by (rule isabs_normpath) (simp add: isabs_getcwd_join)

lemma isabs_not_Nil: "isabs p \<Longrightarrow> p \<noteq> []"
  by (auto simp: isabs_def)

lemma no_trailing_slash_join:
  assumes "valid_name n"
  shows "\<not> trailing_slash (path_join d n)"
proof -
  from assms have n: "n \<noteq> []" and s: "CHR ''/'' \<notin> set n" unfolding valid_name_def by blast+
  from n have "last n \<in> set n" by (rule last_in_set)
  with s have "last n \<noteq> CHR ''/''" by metis
  with n show ?thesis by (auto simp: trailing_slash_def path_join_def)
qed

lemma resolve_dir:
  assumes "walk (files w) [] (components d) = Inr (q, Some Dir)" and "isabs d"
  shows "resolve w d = Inr (q, Some Dir)"
proof -
  from assms(2) have "d \<noteq> []" by (rule isabs_not_Nil)
  with assms have "lresolve w (cwd w) d = Inr (q, Some Dir)" by (simp add: lresolve_def)
  then show ?thesis unfolding resolve_def follow.simps[of 40 w "cwd w" d] by simp
qed

lemma resolve_new:
  assumes "walk (files w) [] (components d) = Inr (dq, Some Dir)" and "isabs d"
    and "valid_name n" and "map_of (files w) (dq @ [n]) = None"
  shows "resolve w (path_join d n) = Inr (dq @ [n], None)"
proof -
  from assms(2) have d: "d \<noteq> []" by (rule isabs_not_Nil)
  from assms(3) have nd: "n \<noteq> ''..''" unfolding valid_name_def by blast
  have "walk (files w) [] (components d @ [n]) = walk (files w) dq [n]"
    by (rule walk_append_dir[OF assms(1)])
  also from nd assms(4) have "\<dots> = Inr (dq @ [n], None)" by simp
  finally have "walk (files w) [] (components (path_join d n)) = Inr (dq @ [n], None)"
    unfolding components_join[OF assms(3) d] .
  moreover have "isabs (path_join d n)" unfolding isabs_join[OF assms(3) d] by (rule assms(2))
  moreover have "path_join d n \<noteq> []" by (rule path_join_not_Nil[OF assms(3)])
  ultimately have "lresolve w (cwd w) (path_join d n) = Inr (dq @ [n], None)"
    by (simp add: lresolve_def)
  then show ?thesis unfolding resolve_def follow.simps[of 40 w "cwd w" "path_join d n"] by simp
qed

lemma open_w_new:
  assumes "walk (files w) [] (components d) = Inr (dq, Some Dir)" and "isabs d"
    and "valid_name n" and "map_of (files w) (dq @ [n]) = None"
  shows "open_w w (path_join d n)
         = (Inr (dq @ [n]), w\<lparr>files := AList.update (dq @ [n]) (File []) (files w)\<rparr>)"
  unfolding open_w_def resolve_new[OF assms]
  using no_trailing_slash_join[OF assms(3)] by simp

lemma writable_f_write [simp]: "writable_at (files (f_write f t w)) f"
  by (simp add: f_write_def)

lemma open_w_wconfined:
  assumes "open_w w p = (Inr f, w')"
  shows "wconfined f w w'"
  unfolding open_w_Inr(3)[OF assms] wconfined_def
  using confined_update_file[OF prefix_order.refl open_w_Inr(4)[OF assms]] by simp

lemma f_write_self: "writable_at (files w) f \<Longrightarrow> wconfined f w (f_write f t w)"
  by (rule f_write_confined) simp_all

lemma wconfined_walk:
  assumes "wconfined sq w w'" and "walk (files w) pre cs = Inr (q, Some Dir)"
  shows "walk (files w') pre cs = Inr (q, Some Dir)"
proof -
  from assms(1) have "dirs_stay (files w) (files w')" unfolding wconfined_def confined_def by blast
  from walk_dirs_stay[OF this assms(2)] show ?thesis .
qed

lemma wconfined_other:
  assumes "wconfined sq w w'" and "\<not> prefix sq k"
  shows "map_of (files w') k = map_of (files w) k"
  using assms unfolding wconfined_def confined_def by blast

lemma wconfined_stdout: "wconfined sq w w' \<Longrightarrow> stdout w' = stdout w"
  unfolding wconfined_def by blast

lemma wconfined_cwd: "wconfined sq w w' \<Longrightarrow> cwd w' = cwd w"
  unfolding wconfined_def by blast

text \<open>Writing a record with five lines into a new file of a directory.\<close>

lemma write_config_new:
  assumes "walk (files w) [] (components (job_dir job)) = Inr (jq, Some Dir)"
    and "isabs (job_dir job)"
    and "map_of (files w) (jq @ [''config.txt'']) = None"
  shows "\<exists>w'. write_config w job = (Inr (), w') \<and> wconfined (jq @ [''config.txt'']) w w' \<and>
           resolve w' (path_join (job_dir job) ''config.txt'')
             = Inr (jq @ [''config.txt''], Some (File (config_text job)))"
proof -
  define f where "f = jq @ [''config.txt'']"
  define p where "p = path_join (job_dir job) ''config.txt''"
  define g where "g = (case gpus job of Some gs \<Rightarrow> gpu_str_list gs | None \<Rightarrow> ''none'')"
  define t1 where "t1 = ''code_dir: '' @ code_dir job @ [LF]"
  define t2 where "t2 = ''data_dir: '' @ data_dir job @ [LF]"
  define t3 where "t3 = ''cmd: '' @ cmd job @ [LF]"
  define t4 where "t4 = ''time: '' @ time job @ [LF]"
  define t5 where "t5 = ''gpus: '' @ g @ [LF]"
  define w0 where "w0 = w\<lparr>files := AList.update f (File []) (files w)\<rparr>"
  define w1 where "w1 = f_write f t1 w0"
  define w2 where "w2 = f_write f t2 w1"
  define w3 where "w3 = f_write f t3 w2"
  define w4 where "w4 = f_write f t4 w3"
  define w5 where "w5 = f_write f t5 w4"
  have o: "open_w w p = (Inr f, w0)"
    unfolding p_def f_def w0_def by (rule open_w_new[OF assms(1,2) valid_config(1) assms(3)])
  have wc: "write_config w job = (Inr (), w5)"
    unfolding write_config_def Let_def p_def[symmetric] g_def[symmetric] o
      t1_def[symmetric] t2_def[symmetric] t3_def[symmetric] t4_def[symmetric] t5_def[symmetric]
    by (simp add: w5_def w4_def w3_def w2_def w1_def)
  have c0: "wconfined f w w0" by (rule open_w_wconfined[OF o])
  have wr0: "writable_at (files w0) f" by (rule open_w_writable[OF o])
  have c1: "wconfined f w0 w1" unfolding w1_def by (rule f_write_self[OF wr0])
  have c2: "wconfined f w1 w2" unfolding w2_def w1_def by (rule f_write_self) simp
  have c3: "wconfined f w2 w3" unfolding w3_def w2_def by (rule f_write_self) simp
  have c4: "wconfined f w3 w4" unfolding w4_def w3_def by (rule f_write_self) simp
  have c5: "wconfined f w4 w5" unfolding w5_def w4_def by (rule f_write_self) simp
  have c: "wconfined f w w5"
    by (rule wconfined_trans[OF c0 wconfined_trans[OF c1 wconfined_trans[OF c2
          wconfined_trans[OF c3 wconfined_trans[OF c4 c5]]]]])
  have r0: "resolve w0 p = Inr (f, Some (File []))" by (rule open_w_resolve[OF o])
  have r1: "resolve w1 p = Inr (f, Some (File ([] @ t1)))"
    unfolding w1_def by (rule f_write_resolve_same[OF r0])
  have r2: "resolve w2 p = Inr (f, Some (File (([] @ t1) @ t2)))"
    unfolding w2_def by (rule f_write_resolve_same[OF r1])
  have r3: "resolve w3 p = Inr (f, Some (File ((([] @ t1) @ t2) @ t3)))"
    unfolding w3_def by (rule f_write_resolve_same[OF r2])
  have r4: "resolve w4 p = Inr (f, Some (File (((([] @ t1) @ t2) @ t3) @ t4)))"
    unfolding w4_def by (rule f_write_resolve_same[OF r3])
  have r5: "resolve w5 p = Inr (f, Some (File ((((([] @ t1) @ t2) @ t3) @ t4) @ t5)))"
    unfolding w5_def by (rule f_write_resolve_same[OF r4])
  have ct: "config_text job = (((([] @ t1) @ t2) @ t3) @ t4) @ t5"
    unfolding config_text_def t1_def t2_def t3_def t4_def t5_def g_def by simp
  from wc c r5 show ?thesis unfolding ct f_def p_def by blast
qed

lemma write_status_new:
  assumes "walk (files w) [] (components (job_dir job)) = Inr (jq, Some Dir)"
    and "isabs (job_dir job)"
    and "map_of (files w) (jq @ [''status.txt'']) = None"
  shows "\<exists>w'. priv_write_status w job = (Inr (), w') \<and> wconfined (jq @ [''status.txt'']) w w' \<and>
           open_rb w' (path_join (job_dir job) ''status.txt'')
             = Inr (''status: '' @ status job @ [LF])"
proof -
  define f where "f = jq @ [''status.txt'']"
  define p where "p = path_join (job_dir job) ''status.txt''"
  define t where "t = ''status: '' @ status job @ [LF]"
  define w0 where "w0 = w\<lparr>files := AList.update f (File []) (files w)\<rparr>"
  have o: "open_w w p = (Inr f, w0)"
    unfolding p_def f_def w0_def by (rule open_w_new[OF assms(1,2) valid_config(2) assms(3)])
  have ws: "priv_write_status w job = (Inr (), f_write f t w0)"
    unfolding priv_write_status_def Let_def p_def[symmetric] o t_def[symmetric] by simp
  have c0: "wconfined f w w0" by (rule open_w_wconfined[OF o])
  have c1: "wconfined f w0 (f_write f t w0)" by (rule f_write_self[OF open_w_writable[OF o]])
  have c: "wconfined f w (f_write f t w0)" by (rule wconfined_trans[OF c0 c1])
  have "open_rb (f_write f t w0) p = Inr t" by (rule write_then_open_rb[OF o])
  with ws c show ?thesis unfolding f_def p_def t_def by blast
qed

lemma resolve_wconfined_file:
  assumes "wconfined sq w w'" and "resolve w p = Inr (f, Some (File c))" and "\<not> prefix sq f"
    and "sq = dq @ [n]" and "walk (files w) [] (components d) = Inr (dq, Some Dir)"
    and "isabs d" and "valid_name m" and "p = path_join d m" and "f = dq @ [m]"
  shows "resolve w' p = Inr (f, Some (File c))"
proof -
  from assms(6) have d: "d \<noteq> []" by (rule isabs_not_Nil)
  from assms(7) have md: "m \<noteq> ''..''" unfolding valid_name_def by blast
  have wk: "walk (files w') [] (components d) = Inr (dq, Some Dir)"
    by (rule wconfined_walk[OF assms(1,5)])
  have "map_of (files w) f = Some (File c)"
    by (rule resolve_node[OF assms(2)]) simp
  with wconfined_other[OF assms(1,3)] have m: "map_of (files w') (dq @ [m]) = Some (File c)"
    unfolding assms(9) by simp
  have "walk (files w') [] (components d @ [m]) = walk (files w') dq [m]"
    by (rule walk_append_dir[OF wk])
  also from md m have "\<dots> = Inr (dq @ [m], Some (File c))" by simp
  finally have "walk (files w') [] (components p) = Inr (f, Some (File c))"
    unfolding assms(8) assms(9) components_join[OF assms(7) d] .
  moreover have "isabs p" unfolding assms(8) isabs_join[OF assms(7) d] by (rule assms(6))
  moreover have "p \<noteq> []" unfolding assms(8) by (rule path_join_not_Nil[OF assms(7)])
  ultimately have "lresolve w' (cwd w') p = Inr (f, Some (File c))"
    by (simp add: lresolve_def)
  then show ?thesis unfolding resolve_def follow.simps[of 40 w' "cwd w'" p] by simp
qed

lemma fresh_snap_inv:
  assumes "walk es [] (components jd) = Inr (jq, Some Dir)" and "fresh es jq"
  shows "snap_inv jd jq es"
  unfolding snap_inv_def
proof (intro conjI allI impI)
  show "walk es [] (components jd) = Inr (jq, Some Dir)" by (rule assms(1))
next
  fix k t assume "prefix (jq @ [''snapshot'']) k"
  then have "strict_prefix jq k" by (auto simp: strict_prefix_def prefix_def)
  with assms(2) have "map_of es k = None" unfolding fresh_def by blast
  then show "map_of es k \<noteq> Some (Symlink t)" by simp
qed

lemma fresh_child: "fresh es jq \<Longrightarrow> map_of es (jq @ [n]) = None"
  unfolding fresh_def by (auto simp: strict_prefix_def)

lemma not_prefix_sibling: "n \<noteq> m \<Longrightarrow> \<not> prefix (jq @ [n]) (jq @ [m])"
  by simp

lemma priv_write_job_absorbs:
  assumes "tree_shaped (files w)" and "isabs (job_dir job)"
    and "prepare_dir w job = (Inr (), w1)"
    and "copytree (recursion_limit ev) (ignore_function [snd (path_split (data_dir job))]) w1
           (code_dir job) (path_join (job_dir job) ''snapshot/'') = (Inl e, w2)"
    and "is_OSError e" and "e \<noteq> NotADirectoryError"
  shows "\<exists>w'. priv_write_job ev w job = (Inr (), w') \<and>
           isdir w' (job_dir job) \<and>
           open_rb w' (path_join (job_dir job) ''config.txt'') = Inr (config_text job) \<and>
           open_rb w' (path_join (job_dir job) ''status.txt'')
             = Inr (''status: '' @ status job @ [LF]) \<and>
           stdout w' = stdout w @ [''Directory not copied. Error: '' @ str_error e @ [LF]]"
proof -
  define jd where "jd = job_dir job"
  define msg where "msg = ''Directory not copied. Error: '' @ str_error e"
  have ia: "isabs jd" unfolding jd_def by (rule assms(2))
  then have jn: "jd \<noteq> []" by (rule isabs_not_Nil)
  from prepare_dir_fresh[OF assms(3,1,2)] obtain jq where
    wk1: "walk (files w1) [] (components jd) = Inr (jq, Some Dir)"
    and fr: "fresh (files w1) jq" and so1: "stdout w1 = stdout w"
    unfolding jd_def by blast
  have i1: "snap_inv jd jq (files w1)" by (rule fresh_snap_inv[OF wk1 fr])
  have c12: "wconfined (jq @ [''snapshot'']) w1 w2"
    by (rule copytree_below[OF i1 below_top[OF jn ia] assms(4)[folded jd_def]])
  define w2' where "w2' = print msg w2"
  have cp: "copy ev w1 (code_dir job) (path_join jd ''snapshot/'') [snd (path_split (data_dir job))]
            = (Inr (), w2')"
    unfolding copy_def assms(4)[folded jd_def] w2'_def msg_def using assms(5,6) by simp
  have f2: "files w2' = files w2" unfolding w2'_def by simp
  have so2: "stdout w2' = stdout w @ [msg @ [LF]]"
    unfolding w2'_def using wconfined_stdout[OF c12] so1 by simp
  have wk2: "walk (files w2') [] (components jd) = Inr (jq, Some Dir)"
    unfolding f2 by (rule wconfined_walk[OF c12 wk1])
  have "map_of (files w2') (jq @ [''config.txt'']) = map_of (files w1) (jq @ [''config.txt''])"
    unfolding f2 by (rule wconfined_other[OF c12]) simp
  then have nc: "map_of (files w2') (jq @ [''config.txt'']) = None"
    using fresh_child[OF fr] by simp
  have "map_of (files w2') (jq @ [''status.txt'']) = map_of (files w1) (jq @ [''status.txt''])"
    unfolding f2 by (rule wconfined_other[OF c12]) simp
  then have ns: "map_of (files w2') (jq @ [''status.txt'']) = None"
    using fresh_child[OF fr] by simp
  from write_config_new[OF wk2[unfolded jd_def] assms(2) nc] obtain w3 where
    wc: "write_config w2' job = (Inr (), w3)"
    and c23: "wconfined (jq @ [''config.txt'']) w2' w3"
    and rc: "resolve w3 (path_join jd ''config.txt'')
             = Inr (jq @ [''config.txt''], Some (File (config_text job)))"
    unfolding jd_def by blast
  have wk3: "walk (files w3) [] (components jd) = Inr (jq, Some Dir)"
    by (rule wconfined_walk[OF c23 wk2])
  have "map_of (files w3) (jq @ [''status.txt'']) = map_of (files w2') (jq @ [''status.txt''])"
    by (rule wconfined_other[OF c23]) simp
  with ns have ns3: "map_of (files w3) (jq @ [''status.txt'']) = None" by simp
  from write_status_new[OF wk3[unfolded jd_def] assms(2) ns3] obtain w4 where
    ws: "priv_write_status w3 job = (Inr (), w4)"
    and c34: "wconfined (jq @ [''status.txt'']) w3 w4"
    and rs: "open_rb w4 (path_join jd ''status.txt'') = Inr (''status: '' @ status job @ [LF])"
    unfolding jd_def by blast
  have wk4: "walk (files w4) [] (components jd) = Inr (jq, Some Dir)"
    by (rule wconfined_walk[OF c34 wk3])
  have d4: "isdir w4 jd" unfolding isdir_def resolve_dir[OF wk4 ia] by simp
  have np: "\<not> prefix (jq @ [''status.txt'']) (jq @ [''config.txt''])" by simp
  have "resolve w4 (path_join jd ''config.txt'')
        = Inr (jq @ [''config.txt''], Some (File (config_text job)))"
    by (rule resolve_wconfined_file[OF c34 rc np refl wk3 ia valid_config(1) refl refl])
  then have rc4: "open_rb w4 (path_join jd ''config.txt'') = Inr (config_text job)"
    by (rule open_rb_file) (rule no_trailing_slash_join[OF valid_config(1)])
  have so4: "stdout w4 = stdout w @ [msg @ [LF]]"
    using wconfined_stdout[OF c34] wconfined_stdout[OF c23] so2 by simp
  have "priv_write_job ev w job = (Inr (), w4)"
    using cp[unfolded jd_def] wc ws by (simp add: priv_write_job_def Let_def assms(3))
  with d4 rc4 rs so4 show ?thesis unfolding jd_def msg_def by auto
qed

lemma new_job_fields:
  "status (new_job ev q w job_name c d m t g) = ''ready''"
  "isabs (job_dir (new_job ev q w job_name c d m t g))"
  by (simp_all add: new_job_def Job_def isabs_abspath)

lemma add_job_free:
  assumes "\<not> lock_held q"
    and "priv_write_job ev w (new_job ev q w job_name c d m t g) = (Inr (), w')"
  shows "add_job ev q w job_name c d m t g = Some ((Inr (new_job ev q w job_name c d m t g), w'), q)"
  using assms unlock_id[OF assms(1)]
  by (simp add: add_job_def with_lock_def Let_def new_job_def)

subsection \<open>A status record that can be written\<close>

lemma isabs_join_rel: "\<not> isabs b \<Longrightarrow> isabs (path_join a b) = isabs a"
  by (cases a) (auto simp: path_join_def isabs_def)

lemma components_join_rel:
  assumes "\<not> isabs b"
  shows "components (path_join a b) = components a @ components b"
proof (cases "a = []")
  case True
  then show ?thesis by (simp add: path_join_def components_def)
next
  case False
  show ?thesis
  proof (cases "last a = CHR ''/''")
    case True
    with False obtain a' where a: "a = a' @ ''/''"
      by (metis append_butlast_last_id)
    have 1: "split_on CHR ''/'' (a' @ CHR ''/'' # b) = split_on CHR ''/'' a' @ split_on CHR ''/'' b"
      by (rule split_on_append)
    have 2: "split_on CHR ''/'' (a' @ CHR ''/'' # []) = split_on CHR ''/'' a' @ [[]]"
      by (simp add: split_on_append)
    have "path_join a b = a' @ CHR ''/'' # b" using assms a by (simp add: path_join_def)
    then show ?thesis unfolding components_def a using 1 2 by simp
  next
    case l: False
    have 1: "split_on CHR ''/'' (a @ CHR ''/'' # b) = split_on CHR ''/'' a @ split_on CHR ''/'' b"
      by (rule split_on_append)
    have "path_join a b = a @ CHR ''/'' # b" using assms False l by (simp add: path_join_def)
    then show ?thesis unfolding components_def using 1 by simp
  qed
qed

lemma basename_no_slash: "CHR ''/'' \<notin> set (snd (path_split p))"
  by (auto simp: path_split_def Let_def dest: set_takeWhileD)

lemma not_isabs_name: "CHR ''/'' \<notin> set n \<Longrightarrow> \<not> isabs n"
  by (cases n) (auto simp: isabs_def)

lemma components_name: "CHR ''/'' \<notin> set n \<Longrightarrow> length (components n) \<le> 1"
  by (simp add: components_def split_on_no_sep)

lemma components_status: "components ''status.txt'' = [''status.txt'']"
  by code_simp

lemma components_snapshot: "components ''snapshot/'' = [''snapshot'']"
  by code_simp

lemma not_isabs_status: "\<not> isabs ''status.txt''" "\<not> isabs ''snapshot/''"
  by (simp_all add: isabs_def)

lemma walk_append_last:
  "walk es pre (cs @ [c]) = Inr (q, None) \<Longrightarrow> c \<noteq> d \<Longrightarrow> d = ''..''
   \<Longrightarrow> \<exists>p'. walk es pre cs = Inr (p', Some Dir) \<and> q = p' @ [c]"
proof (induction es pre cs rule: walk.induct)
  case (1 es pre)
  then show ?case by (auto split: option.splits node.splits)
next
  case (2 es pre c' cs)
  show ?case
  proof (cases "c' = ''..''")
    case True
    with "2.prems" have "walk es (butlast pre) (cs @ [c]) = Inr (q, None)" by simp
    from "2.IH"(1)[OF True this "2.prems"(2,3)] True show ?thesis by simp
  next
    case False
    show ?thesis
    proof (cases "map_of es (pre @ [c'])")
      case None
      with False "2.prems"(1) show ?thesis by simp
    next
      case (Some n)
      show ?thesis
      proof (cases n)
        case Dir
        with Some False "2.prems"(1) have "walk es (pre @ [c']) (cs @ [c]) = Inr (q, None)" by simp
        from "2.IH"(2)[OF False Some Dir this "2.prems"(2,3)] Some Dir False show ?thesis by simp
      next
        case (File x)
        with Some False "2.prems"(1) show ?thesis by simp
      next
        case (Symlink x)
        with Some False "2.prems"(1) show ?thesis by simp
      qed
    qed
  qed
qed

lemma walk_one:
  "walk es p [c] = Inr (qs, r) \<Longrightarrow> c \<noteq> d \<Longrightarrow> d = ''..'' \<Longrightarrow> qs = p @ [c]"
  by (auto split: option.splits node.splits)

lemma walk_sibling:
  assumes "walk es p (c # ns) = Inr (qs, None)" and "c \<noteq> ''..''" and "length ns \<le> 1"
    and "c \<noteq> d"
  shows "qs \<noteq> p @ [d]"
proof (cases ns)
  case Nil
  with assms(1) have "qs = p @ [c]" by (rule_tac walk_one[OF _ assms(2) refl]) simp
  with assms(4) show ?thesis by simp
next
  case (Cons n ms)
  with assms(3) have ns: "ns = [n]" by simp
  show ?thesis
  proof (cases "map_of es (p @ [c])")
    case None
    with assms(1,2) ns show ?thesis by simp
  next
    case (Some x)
    show ?thesis
    proof (cases x)
      case Dir
      with Some assms(1,2) ns have w: "walk es (p @ [c]) [n] = Inr (qs, None)" by simp
      show ?thesis
      proof (cases "n = ''..''")
        case True
        with w show ?thesis by simp
      next
        case False
        from walk_one[OF w False refl] show ?thesis by simp
      qed
    next
      case (File y)
      with Some assms(1,2) ns show ?thesis by simp
    next
      case (Symlink y)
      with Some assms(1,2) ns show ?thesis by simp
    qed
  qed
qed

lemma is_absent_iff: "is_absent w p = (\<exists>q. lresolve w (cwd w) p = Inr (q, None))"
  by (auto simp: is_absent_def split: sum.splits option.splits prod.splits)

lemma bind_data_absent:
  assumes "is_absent w (path_join (job_dir job) ''status.txt'')"
    and "bind_data w job = (Inr (), w1)"
  shows "is_absent w1 (path_join (job_dir job) ''status.txt'')"
proof (cases "exists w (path_join (path_join (job_dir job) ''snapshot/'')
                         (snd (path_split (data_dir job))))")
  case True
  with assms(2) have "w1 = w" by (simp add: bind_data_def Let_def)
  with assms(1) show ?thesis by simp
next
  case False
  define jd where "jd = job_dir job"
  define nm where "nm = snd (path_split (data_dir job))"
  define sp where "sp = path_join jd ''status.txt''"
  define sl where "sl = path_join (path_join jd ''snapshot/'') nm"
  define base where "base = (if isabs jd then [] else cwd w)"
  define es where "es = files w"
  have nn: "CHR ''/'' \<notin> set nm" unfolding nm_def by (rule basename_no_slash)
  have na: "\<not> isabs nm" by (rule not_isabs_name[OF nn])
  from False assms(2) have sy: "symlink w (data_dir job) sl = (Inr (), w1)"
    unfolding sl_def jd_def nm_def by (simp add: bind_data_def Let_def)
  then obtain qs where l: "lresolve w (cwd w) sl = Inr (qs, None)"
    and w1: "w1 = w\<lparr>files := AList.update qs (Symlink (data_dir job)) (files w)\<rparr>"
    by (auto simp: symlink_def split: sum.splits option.splits prod.splits)
  from l have m: "map_of es qs = None"
    unfolding es_def by (auto simp: lresolve_def dest: walk_node split: if_splits)
  from assms(1) obtain q where a: "lresolve w (cwd w) sp = Inr (q, None)"
    unfolding is_absent_iff sp_def jd_def by blast
  have isp: "isabs sp = isabs jd" unfolding sp_def by (rule isabs_join_rel[OF not_isabs_status(1)])
  have csp: "components sp = components jd @ [''status.txt'']"
    unfolding sp_def components_join_rel[OF not_isabs_status(1)] components_status ..
  from a have spn: "sp \<noteq> []" by (auto simp: lresolve_def split: if_splits)
  from a spn have wsp: "walk es base (components jd @ [''status.txt'']) = Inr (q, None)"
    unfolding lresolve_def isp csp base_def es_def by simp
  have sd: "''status.txt'' \<noteq> ''..''" by simp
  from walk_append_last[OF wsp sd refl] obtain p' where
    wj: "walk es base (components jd) = Inr (p', Some Dir)" and q: "q = p' @ [''status.txt'']"
    by blast
  have isl: "isabs sl = isabs jd"
    unfolding sl_def isabs_join_rel[OF na] by (rule isabs_join_rel[OF not_isabs_status(2)])
  have csl: "components sl = components jd @ ''snapshot'' # components nm"
    unfolding sl_def components_join_rel[OF na] components_join_rel[OF not_isabs_status(2)]
      components_snapshot by simp
  from l have sln: "sl \<noteq> []" by (auto simp: lresolve_def split: if_splits)
  from l sln have "walk es base (components jd @ ''snapshot'' # components nm) = Inr (qs, None)"
    unfolding lresolve_def isl csl base_def es_def by simp
  then have wsl: "walk es p' (''snapshot'' # components nm) = Inr (qs, None)"
    unfolding walk_append_dir[OF wj] .
  have s1: "''snapshot'' \<noteq> ''..''" by simp
  have s2: "''snapshot'' \<noteq> ''status.txt''" by simp
  have ne: "qs \<noteq> q" unfolding q by (rule walk_sibling[OF wsl s1 components_name[OF nn] s2])
  from walk_update_symlink[OF m wsp, of "data_dir job"] ne
  have "walk (AList.update qs (Symlink (data_dir job)) es) base (components jd @ [''status.txt''])
        = Inr (q, None)" by simp
  with spn have "lresolve w1 (cwd w1) sp = Inr (q, None)"
    unfolding lresolve_def isp csp base_def es_def w1 by (cases "isabs jd") simp_all
  then show ?thesis unfolding is_absent_iff sp_def jd_def by blast
qed

lemma openable_iff:
  "(\<exists>g v. open_w w p = (Inr g, v)) =
   (\<not> trailing_slash p \<and>
    (\<exists>q. resolve w p = Inr (q, None) \<or> (\<exists>c. resolve w p = Inr (q, Some (File c)))))"
  by (auto simp: open_w_def split: sum.splits option.splits prod.splits node.splits if_splits)

lemma is_absent_openable:
  assumes "is_absent w p" and "\<not> trailing_slash p"
  shows "\<exists>g v. open_w w p = (Inr g, v)"
proof -
  from assms(1) obtain q where "lresolve w (cwd w) p = Inr (q, None)"
    unfolding is_absent_iff by blast
  then have "resolve w p = Inr (q, None)"
    unfolding resolve_def follow.simps[of 40 w "cwd w" p] by simp
  with assms(2) show ?thesis unfolding openable_iff by blast
qed

lemma openable_update_file:
  assumes "\<exists>g v. open_w w p = (Inr g, v)" and "writable_at (files w) f"
  shows "\<exists>g v. open_w (w\<lparr>files := AList.update f (File c) (files w)\<rparr>) p = (Inr g, v)"
proof -
  from assms(1) obtain q r where t: "\<not> trailing_slash p" and r: "resolve w p = Inr (q, r)"
    and k: "r = None \<or> (\<exists>c. r = Some (File c))"
    unfolding openable_iff by blast
  from resolve_update_file[OF assms(2) r, of c] k
  have "resolve (w\<lparr>files := AList.update f (File c) (files w)\<rparr>) p = Inr (q, None) \<or>
        (\<exists>c'. resolve (w\<lparr>files := AList.update f (File c) (files w)\<rparr>) p = Inr (q, Some (File c')))"
    by auto
  with t show ?thesis unfolding openable_iff by blast
qed

lemma openable_f_write:
  assumes "\<exists>g v. open_w w p = (Inr g, v)" and "writable_at (files w) f"
  shows "\<exists>g v. open_w (f_write f t w) p = (Inr g, v)"
  unfolding f_write_def by (rule openable_update_file[OF assms])

lemma openable_print:
  "(\<exists>g v. open_w (print s w) p = (Inr g, v)) = (\<exists>g v. open_w w p = (Inr g, v))"
  unfolding openable_iff by simp

lemma openable_stdout:
  "(\<exists>g v. open_w (w\<lparr>stdout := x\<rparr>) p = (Inr g, v)) = (\<exists>g v. open_w w p = (Inr g, v))"
  unfolding openable_iff by simp

lemma openable_streamed:
  assumes "\<exists>g v. open_w w1 p = (Inr g, v)" and "open_w w1 p' = (Inr f, w2)"
  shows "\<exists>g v. open_w (f_write f t (print s w2\<lparr>stdout := x\<rparr>)) p = (Inr g, v)"
proof -
  have "\<exists>g v. open_w w2 p = (Inr g, v)"
    unfolding open_w_Inr(3)[OF assms(2)]
    by (rule openable_update_file[OF assms(1) open_w_Inr(4)[OF assms(2)]])
  then have "\<exists>g v. open_w (print s w2\<lparr>stdout := x\<rparr>) p = (Inr g, v)"
    unfolding openable_stdout openable_print .
  moreover have "writable_at (files (print s w2\<lparr>stdout := x\<rparr>)) f"
    using open_w_writable[OF assms(2)] by simp
  ultimately show ?thesis by (rule openable_f_write)
qed

lemma priv_write_status_openable:
  assumes "\<exists>g v. open_w w (path_join (job_dir job) ''status.txt'') = (Inr g, v)"
  shows "\<exists>w'. priv_write_status w job = (Inr (), w')"
  using assms by (auto simp: priv_write_status_def Let_def)


section \<open>The claims\<close>

subsection \<open>C5: the oldest ready job\<close>

lemma sort_key_Nil_iff: "(sort_key f xs = []) = (xs = [])"
proof
  assume "sort_key f xs = []"
  then have "length (sort_key f xs) = 0" by simp
  then show "xs = []" by (simp only: length_sort length_0_conv)
qed simp

lemma oldest_None_iff:
  "(oldest q = None) = (\<forall>j \<in> snd ` set (jobs q). status j \<noteq> ''ready'')"
  by (simp add: oldest_def Let_def sort_key_Nil_iff filter_empty_conv)

lemma oldest_Some_min:
  assumes "oldest q = Some j"
  shows "j \<in> snd ` set (jobs q)" and "status j = ''ready''"
    and "\<forall>j' \<in> snd ` set (jobs q). status j' = ''ready'' \<longrightarrow> time j \<le> time j'"
proof -
  define rs where "rs = filter (\<lambda>j. status j = ''ready'') (map snd (jobs q))"
  define ss where "ss = sort_key time rs"
  from assms have ne: "ss \<noteq> []" and j: "j = ss ! 0"
    by (auto simp: oldest_def Let_def ss_def rs_def split: if_splits)
  then have hd: "j = hd ss" by (simp add: hd_conv_nth)
  with ne have "j \<in> set ss" by simp
  then have "j \<in> set rs" by (simp add: ss_def)
  then show "j \<in> snd ` set (jobs q)" and "status j = ''ready''" by (auto simp: rs_def)
  have srt: "sorted (map time ss)" by (simp add: ss_def)
  show "\<forall>j' \<in> snd ` set (jobs q). status j' = ''ready'' \<longrightarrow> time j \<le> time j'"
  proof (intro ballI impI)
    fix j' assume "j' \<in> snd ` set (jobs q)" and "status j' = ''ready''"
    then have "j' \<in> set ss" by (auto simp: ss_def rs_def)
    with srt ne hd show "time j \<le> time j'" by (cases ss) auto
  qed
qed

lemma ready_neq_finished: "s = ''ready'' \<Longrightarrow> s \<noteq> ''finished'' \<and> s \<noteq> ''crashed''"
  by simp

text \<open>
  Claim C5. For every index state, \<^verbatim>\<open>oldest()\<close> returns \<^verbatim>\<open>None\<close> exactly when no
  job of the index has status \<^verbatim>\<open>'ready'\<close>; a job it returns is a job of the index,
  its status is \<^verbatim>\<open>'ready'\<close> (so neither \<^verbatim>\<open>'finished'\<close> nor \<^verbatim>\<open>'crashed'\<close>), and its
  submission time is at most that of every ready job of the index, in the order on
  the timestamp strings.
\<close>

theorem oldest_returns_minimal_ready_job:
  "(oldest q = None) = (\<forall>j \<in> snd ` set (jobs q). status j \<noteq> ''ready'') \<and>
   (\<forall>j. oldest q = Some j \<longrightarrow>
      j \<in> snd ` set (jobs q) \<and> status j = ''ready'' \<and>
      status j \<noteq> ''finished'' \<and> status j \<noteq> ''crashed'' \<and>
      (\<forall>j' \<in> snd ` set (jobs q). status j' = ''ready'' \<longrightarrow> time j \<le> time j'))"
proof (intro conjI allI impI)
  show "(oldest q = None) = (\<forall>j \<in> snd ` set (jobs q). status j \<noteq> ''ready'')"
    by (rule oldest_None_iff)
next
  fix j assume a: "oldest q = Some j"
  show "j \<in> snd ` set (jobs q)" by (rule oldest_Some_min(1)[OF a])
  show r: "status j = ''ready''" by (rule oldest_Some_min(2)[OF a])
  from ready_neq_finished[OF r] show "status j \<noteq> ''finished''" and "status j \<noteq> ''crashed''"
    by blast+
  show "\<forall>j' \<in> snd ` set (jobs q). status j' = ''ready'' \<longrightarrow> time j \<le> time j'"
    by (rule oldest_Some_min(3)[OF a])
qed

lemma oldest_indexed_queue: "oldest indexed_queue = Some ready_job"
  by code_simp

theorem oldest_returns_minimal_ready_job_witness:
  "oldest indexed_queue = Some ready_job \<and>
   queued_job \<in> snd ` set (jobs indexed_queue) \<and> status queued_job = ''ready'' \<and>
   time ready_job \<le> time queued_job"
proof -
  have c: "queued_job \<in> snd ` set (jobs indexed_queue)"
    by (simp add: indexed_queue_def)
  have s: "status queued_job = ''ready''"
    by (simp add: queued_job_def)
  from oldest_returns_minimal_ready_job[of indexed_queue] oldest_indexed_queue c s
  show ?thesis by blast
qed

subsection \<open>C10: a status that is written is read back\<close>

text \<open>
  Claim C10, as the code has it. No status value is checked against \<^verbatim>\<open>ready\<close>,
  \<^verbatim>\<open>finished\<close> and \<^verbatim>\<open>crashed\<close>: for every string \<^verbatim>\<open>s\<close> that has no line feed and
  no carriage return, no white space at either end and no occurrence of the text
  \<^verbatim>\<open>status:\<close>, a \<^verbatim>\<open>write_status(job, s)\<close> that succeeds, followed by
  \<^verbatim>\<open>read_status(job)\<close>, returns \<^verbatim>\<open>s\<close>. (The caller finds the lock free.)
\<close>

theorem status_written_is_read_back:
  assumes "\<not> lock_held q"
    and "write_status q w job s = Some ((Inr (), w'), q')"
    and "LF \<notin> set s" and "CR \<notin> set s"
    and "s = [] \<or> (\<not> isspace (hd s) \<and> \<not> isspace (last s))"
    and "\<not> sublist ''status:'' s"
  shows "write_then_read_status q w job s = Some (Inr s)"
proof -
  from assms(1,2) have p: "priv_write_status w (job\<lparr>status := s\<rparr>) = (Inr (), w')" and q': "q' = q"
    by (simp_all add: write_status_free)
  have "priv_read_status w' job = Inr (job\<lparr>status := status (job\<lparr>status := s\<rparr>)\<rparr>)"
    by (rule write_status_then_read[OF p]) (use assms(3-6) in simp_all)
  with assms(1,2) q' show ?thesis
    by (simp add: write_then_read_status_def read_status_free)
qed

lemma write_paused:
  "write_status ex_queue ready_world ready_job ''paused''
   = Some ((Inr (), snd (fst (the (write_status ex_queue ready_world ready_job ''paused'')))),
           ex_queue)"
  by code_simp

theorem status_written_is_read_back_witness:
  "write_then_read_status ex_queue ready_world ready_job ''paused'' = Some (Inr ''paused'') \<and>
   \<not> lock_held ex_queue \<and> \<not> sublist ''status:'' ''paused''"
proof -
  have l: "\<not> lock_held ex_queue" by (simp add: ex_queue_def JobQueue_def)
  have n: "\<not> sublist ''status:'' ''paused''" by (simp add: sublist_Cons_right)
  have "write_then_read_status ex_queue ready_world ready_job ''paused'' = Some (Inr ''paused'')"
    by (rule status_written_is_read_back[OF l write_paused _ _ _ n])
       (simp_all add: LF_def CR_def isspace_def)
  with l n show ?thesis by blast
qed

text \<open>
  The claim as written fails: the status \<^verbatim>\<open>status:done\<close> is a single line without
  white space around it, and it is read back as \<^verbatim>\<open>done\<close>, because \<^verbatim>\<open>_read_status\<close>
  removes every occurrence of \<^verbatim>\<open>status:\<close> from the line.
\<close>

theorem status_roundtrip_counterexample:
  "write_then_read_status ex_queue ready_world ready_job ''status:done'' = Some (Inr ''done'')"
  by code_simp

subsection \<open>C6: a run that completes is recorded as finished\<close>

text \<open>
  Claim C6, as the code has it. Let the caller find the lock free, and let the status
  record of the job be a regular file, or let nothing be at \<^verbatim>\<open>status.txt\<close> in the
  existing job directory. If the data binding, the opening of the output file, the
  launch and the streaming all complete without an exception, so that the child has
  exited with some code, then \<^verbatim>\<open>run_job\<close> returns normally and the status record
  reads \<^verbatim>\<open>finished\<close>, whatever the exit code is.
\<close>

theorem run_job_finished:
  assumes "\<not> lock_held q"
    and "is_file w (path_join (job_dir job) ''status.txt'') \<or>
         is_absent w (path_join (job_dir job) ''status.txt'')"
    and "bind_data w job = (Inr (), w1)"
    and "open_w w1 (path_join (job_dir job) ''output.txt'') = (Inr f, w2)"
    and "launch ev (print (''Run subprocess: '' @ cmd job) w2) (cmd job)
           (path_join (job_dir job) ''snapshot/'') (run_env ev job) = Exited lines code"
  shows "\<exists>w'. run_job ev q w job = Some ((Inr (), w'), q) \<and>
           priv_read_status w' job = Inr (job\<lparr>status := ''finished''\<rparr>)"
proof -
  let ?sp = "path_join (job_dir job) ''status.txt''"
  define w3 where "w3 = f_write f (concat lines)
      (print (''Run subprocess: '' @ cmd job) w2
        \<lparr>stdout := stdout (print (''Run subprocess: '' @ cmd job) w2) @ lines\<rparr>)"
  from assms(4,5) have s: "stream_output ev w1 job = (Inr (), w3)"
    by (simp add: stream_output_def Let_def w3_def)
  from assms(2) have "\<exists>g v. open_w w1 ?sp = (Inr g, v)"
  proof
    assume "is_file w ?sp"
    then have "is_file w1 ?sp" by (rule is_file_bind_data[OF assms(3)])
    then show ?thesis by (rule open_w_is_file)
  next
    assume "is_absent w ?sp"
    then have "is_absent w1 ?sp" by (rule bind_data_absent[OF _ assms(3)])
    then show ?thesis by (rule is_absent_openable) simp
  qed
  then have "\<exists>g v. open_w w3 ?sp = (Inr g, v)"
    unfolding w3_def by (rule openable_streamed[OF _ assms(4)])
  then have "\<exists>g v. open_w (print ''Job finished. Waiting for next job.'' w3)
      (path_join (job_dir (job\<lparr>status := ''finished''\<rparr>)) ''status.txt'') = (Inr g, v)"
    unfolding openable_print by simp
  from priv_write_status_openable[OF this] obtain w4 where
    p: "priv_write_status (print ''Job finished. Waiting for next job.'' w3)
          (job\<lparr>status := ''finished''\<rparr>) = (Inr (), w4)" by blast
  have r: "priv_read_status w4 job = Inr (job\<lparr>status := status (job\<lparr>status := ''finished''\<rparr>)\<rparr>)"
    by (rule write_status_then_read[OF p]) (simp_all add: finished_plain LF_def CR_def isspace_def)
  from assms(1,3) s p have "run_job ev q w job = Some ((Inr (), w4), q)"
    by (simp add: run_job_def write_status_free)
  with r show ?thesis by simp
qed

lemma ready_job_bound: "bind_data ready_world ready_job = (Inr (), bound_world)"
  by code_simp


lemma ex_queue_free: "\<not> lock_held ex_queue"
  by (simp add: ex_queue_def JobQueue_def)

lemma ready_job_output:
  "open_w bound_world (path_join (job_dir ready_job) ''output.txt'')
   = (Inr [''home'', ''u'', ''jobs'', ''A'', ''output.txt''], opened_world)"
  by code_simp

lemma ready_job_exit_code:
  "launch ex_env (print (''Run subprocess: '' @ cmd ready_job) opened_world) (cmd ready_job)
     (path_join (job_dir ready_job) ''snapshot/'') (run_env ex_env ready_job)
   = Exited [''hi'' @ [LF]] 3"
  by code_simp

lemma ready_job_record:
  "is_file ready_world (path_join (job_dir ready_job) ''status.txt'') \<or>
   is_absent ready_world (path_join (job_dir ready_job) ''status.txt'')"
  by code_simp

theorem run_job_finished_witness:
  "(\<exists>w'. run_job ex_env ex_queue ready_world ready_job = Some ((Inr (), w'), ex_queue) \<and>
         priv_read_status w' ready_job = Inr (ready_job\<lparr>status := ''finished''\<rparr>)) \<and>
   launch ex_env (print (''Run subprocess: '' @ cmd ready_job) opened_world) (cmd ready_job)
     (path_join (job_dir ready_job) ''snapshot/'') (run_env ex_env ready_job)
   = Exited [''hi'' @ [LF]] 3"
  using run_job_finished[OF ex_queue_free ready_job_record ready_job_bound ready_job_output
      ready_job_exit_code] ready_job_exit_code
  by blast

text \<open>
  Claim C6 as stated, for every job whose run completes steps 1 to 4, fails when the
  status record cannot be written. With a directory at \<^verbatim>\<open>status.txt\<close> the data binding
  and the streaming complete, \<^verbatim>\<open>write_status(job, 'finished')\<close> raises
  \<^verbatim>\<open>IsADirectoryError\<close> inside the \<^verbatim>\<open>try\<close>, \<^verbatim>\<open>write_status(job, 'crashed')\<close> raises
  it again in the handler, and \<^verbatim>\<open>run_job\<close> raises it to its caller: no status is
  written.
\<close>

theorem run_job_unwritable_status_counterexample:
  "fst (bind_data blocked_world ready_job) = Inr () \<and>
   fst (stream_output ex_env (snd (bind_data blocked_world ready_job)) ready_job) = Inr () \<and>
   run_job ex_env ex_queue blocked_world ready_job
   = Some ((Inl IsADirectoryError,
            print ''Job finished. Waiting for next job.''
              (snd (stream_output ex_env (snd (bind_data blocked_world ready_job)) ready_job))),
           ex_queue) \<and>
   isdir blocked_world (path_join (job_dir ready_job) ''status.txt'') \<and>
   priv_read_status
     (print ''Job finished. Waiting for next job.''
        (snd (stream_output ex_env (snd (bind_data blocked_world ready_job)) ready_job)))
     ready_job = Inl IsADirectoryError"
  by code_simp

subsection \<open>C1: which exceptions a run absorbs\<close>






subsection \<open>C4: how reading a job fails\<close>














subsection \<open>C2: what a scan tolerates\<close>










subsection \<open>C3: reading back a written job\<close>

text \<open>
  Claim C3 does not hold of the code. \<^verbatim>\<open>_read_job\<close> strips the command line before
  it removes \<^verbatim>\<open>cmd:\<close>, while the other four fields are stripped afterwards: the
  blank that \<^verbatim>\<open>_write_job\<close> writes after \<^verbatim>\<open>cmd:\<close> stays in front of the command.
  The job \<^verbatim>\<open>ex_job\<close> with command \<^verbatim>\<open>echo hi\<close> is read back equal in every other
  field, with the command \<^verbatim>\<open>echo hi\<close> after a blank.
\<close>

theorem read_back_command_differs:
  "read_back ex_env ex_world ex_job = Inr (ex_job\<lparr>cmd := '' echo hi''\<rparr>) \<and>
   cmd ex_job = ''echo hi''"
  by code_simp

subsection \<open>C7: binding the data directory twice\<close>

text \<open>
  Claim C7 does not hold of the code. \<^verbatim>\<open>os.path.exists\<close> follows the link: for a job
  whose data directory does not exist, the first binding creates a dangling link, the
  second finds that the path does not exist, calls \<^verbatim>\<open>os.symlink\<close> again, and that
  raises \<^verbatim>\<open>FileExistsError\<close>. (For \<^verbatim>\<open>ready_job\<close>, whose data directory exists, the
  second binding changes nothing.)
\<close>

theorem bind_data_twice_raises:
  "fst (bind_data ready_world orphan_job) = Inr () \<and>
   bind_data (snd (bind_data ready_world orphan_job)) orphan_job
     = (Inl FileExistsError, snd (bind_data ready_world orphan_job)) \<and>
   \<not> exists ready_world (data_dir orphan_job) \<and>
   bind_data bound_world ready_job = (Inr (), bound_world)"
  by code_simp

subsection \<open>C8: what runs under the lock\<close>

text \<open>
  Claim C8 does not hold of \<^verbatim>\<open>oldest\<close>. While a thread is inside \<^verbatim>\<open>update\<close>, with
  the lock held and the index just emptied, \<^verbatim>\<open>update\<close>, \<^verbatim>\<open>read_status\<close> and
  \<^verbatim>\<open>write_status\<close> of another thread wait; \<^verbatim>\<open>oldest\<close> does not wait and reads the
  emptied index: it returns \<^verbatim>\<open>None\<close>, though the index before the scan, and the
  index the scan builds, hold the ready job \<^verbatim>\<open>A\<close>.
\<close>

theorem oldest_ignores_lock:
  "lock_held scanning_queue \<and>
   update scanning_queue ready_world = None \<and>
   read_status scanning_queue ready_world ready_job = None \<and>
   write_status scanning_queue ready_world ready_job ''finished'' = None \<and>
   oldest scanning_queue = None \<and>
   oldest indexed_queue = Some ready_job \<and>
   update ex_queue ready_world = Some ((Inr (), ready_world), indexed_queue)"
  by code_simp

subsection \<open>C9: a copy that fails\<close>

text \<open>
  Claim C9, as the code has it. Let the caller find the lock free, let the file system
  be tree shaped, and let \<^verbatim>\<open>job\<close> be the job that \<^verbatim>\<open>add_job\<close> builds from its
  arguments. If the job directory is created and \<^verbatim>\<open>shutil.copytree\<close> raises an
  \<^verbatim>\<open>OSError\<close> whose errno is not \<^verbatim>\<open>ENOTDIR\<close> (the code directory does not exist, for
  one), then \<^verbatim>\<open>add_job\<close> returns the job, with status \<^verbatim>\<open>ready\<close>; the job directory
  exists, \<^verbatim>\<open>config.txt\<close> holds the five lines of the job, \<^verbatim>\<open>status.txt\<close> holds
  \<^verbatim>\<open>status: ready\<close>, and the message of \<^verbatim>\<open>copy\<close> has been printed.
\<close>

theorem add_job_absorbs_copy_error:
  assumes "\<not> lock_held q" and "tree_shaped (files w)"
    and "job = new_job ev q w job_name code_dir' data_dir' cmd' job_time gpus'"
    and "prepare_dir w job = (Inr (), w1)"
    and "copytree (recursion_limit ev) (ignore_function [snd (path_split (data_dir job))]) w1
           (code_dir job) (path_join (job_dir job) ''snapshot/'') = (Inl e, w2)"
    and "is_OSError e" and "e \<noteq> NotADirectoryError"
  shows "\<exists>w'. add_job ev q w job_name code_dir' data_dir' cmd' job_time gpus'
                = Some ((Inr job, w'), q) \<and>
           status job = ''ready'' \<and>
           isdir w' (job_dir job) \<and>
           open_rb w' (path_join (job_dir job) ''config.txt'') = Inr (config_text job) \<and>
           open_rb w' (path_join (job_dir job) ''status.txt'') = Inr (''status: ready'' @ [LF]) \<and>
           stdout w' = stdout w @ [''Directory not copied. Error: '' @ str_error e @ [LF]]"
proof -
  have st: "status job = ''ready''" unfolding assms(3) by (rule new_job_fields(1))
  have ia: "isabs (job_dir job)" unfolding assms(3) by (rule new_job_fields(2))
  from priv_write_job_absorbs[OF assms(2) ia assms(4,5,6,7)] obtain w' where
    pw: "priv_write_job ev w job = (Inr (), w')"
    and d: "isdir w' (job_dir job)"
    and c: "open_rb w' (path_join (job_dir job) ''config.txt'') = Inr (config_text job)"
    and s: "open_rb w' (path_join (job_dir job) ''status.txt'')
            = Inr (''status: '' @ status job @ [LF])"
    and o: "stdout w' = stdout w @ [''Directory not copied. Error: '' @ str_error e @ [LF]]"
    by blast
  have a: "add_job ev q w job_name code_dir' data_dir' cmd' job_time gpus'
           = Some ((Inr job, w'), q)"
    unfolding assms(3) by (rule add_job_free[OF assms(1) pw[unfolded assms(3)]])
  from s have s': "open_rb w' (path_join (job_dir job) ''status.txt'') = Inr (''status: ready'' @ [LF])"
    unfolding st by simp
  from a st d c s' o show ?thesis by blast
qed

lemma ex_world_tree_shaped: "tree_shaped (files ex_world)"
  by code_simp

lemma nowhere_job_prepared: "prepare_dir ex_world nowhere_job = (Inr (), prepared_world)"
  by code_simp

lemma nowhere_job_copytree:
  "copytree (recursion_limit ex_env) (ignore_function [snd (path_split (data_dir nowhere_job))])
     prepared_world (code_dir nowhere_job) (path_join (job_dir nowhere_job) ''snapshot/'')
   = (Inl FileNotFoundError, prepared_world)"
  by code_simp

lemma FileNotFoundError_absorbed:
  "is_OSError FileNotFoundError" "FileNotFoundError \<noteq> NotADirectoryError"
  by (simp_all add: is_OSError_def)

theorem add_job_absorbs_copy_error_witness:
  "(\<exists>w'. add_job ex_env ex_queue ex_world (Some ''C'') ''/nowhere'' ''proj/data'' ''echo hi''
           None None = Some ((Inr nowhere_job, w'), ex_queue) \<and>
         status nowhere_job = ''ready'' \<and>
         isdir w' (job_dir nowhere_job) \<and>
         open_rb w' (path_join (job_dir nowhere_job) ''config.txt'')
           = Inr (config_text nowhere_job) \<and>
         open_rb w' (path_join (job_dir nowhere_job) ''status.txt'')
           = Inr (''status: ready'' @ [LF]) \<and>
         stdout w' = stdout ex_world
           @ [''Directory not copied. Error: '' @ str_error FileNotFoundError @ [LF]]) \<and>
   \<not> exists ex_world ''/nowhere'' \<and>
   copytree (recursion_limit ex_env) (ignore_function [snd (path_split (data_dir nowhere_job))])
     prepared_world (code_dir nowhere_job) (path_join (job_dir nowhere_job) ''snapshot/'')
   = (Inl FileNotFoundError, prepared_world)"
proof -
  have "\<not> exists ex_world ''/nowhere''" by code_simp
  with add_job_absorbs_copy_error[OF ex_queue_free ex_world_tree_shaped nowhere_job_def
      nowhere_job_prepared nowhere_job_copytree FileNotFoundError_absorbed]
    nowhere_job_copytree
  show ?thesis by blast
qed

text \<open>
  Claim C9 as stated, for every code directory that does not exist or cannot be copied,
  fails when the path of the code directory runs through a regular file: nothing is at
  \<^verbatim>\<open>proj/main.py/lib\<close>, \<^verbatim>\<open>shutil.copytree\<close> raises \<^verbatim>\<open>NotADirectoryError\<close>, whose errno
  is \<^verbatim>\<open>ENOTDIR\<close>, \<^verbatim>\<open>copy\<close> calls \<^verbatim>\<open>shutil.copy\<close>, which raises the same error, and
  \<^verbatim>\<open>add_job\<close> raises it to its caller, with the job directory created and neither
  record written.
\<close>

theorem add_job_raises_counterexample:
  "add_job ex_env ex_queue ex_world (Some ''C'') ''proj/main.py/lib'' ''proj/data'' ''echo hi''
     None None
   = Some ((Inl NotADirectoryError, prepared_world), ex_queue) \<and>
   \<not> exists ex_world ''proj/main.py/lib'' \<and>
   \<not> is_file ex_world ''proj/main.py/lib''"
  by code_simp

end
